theory Spec2Isabelle
  imports Main "HOL-Library.Word"
begin

unbundle bit_operations_syntax

section \<open>Common types (common/types.h)\<close>

type_synonym u8 = "8 word"
type_synonym u16 = "16 word"
type_synonym u32 = "32 word"
type_synonym u64 = "64 word"
type_synonym bytes = "u8 list"

text \<open>\<^verbatim>\<open>using Timestamp = uint64_t\<close>.\<close>

type_synonym Timestamp = u64

text \<open>
  \<^verbatim>\<open>struct VersionedValue { std::string value; Timestamp timestamp = 0; std::string origin_node; }\<close>
\<close>

record VersionedValue =
  "value" :: string
  timestamp :: Timestamp
  origin_node :: string

text \<open>
  \<^verbatim>\<open>enum class OpType : uint8_t\<close>. The write-ahead log stores the enumerator as its
  underlying byte and reads it back with a \<^verbatim>\<open>static_cast\<close>, so an \<open>OpType\<close> is
  modelled as that byte and the enumerators as constants.
\<close>

type_synonym OpType = u8

definition PUT :: OpType where "PUT = 1"
definition GET :: OpType where "GET = 2"
definition DELETE_OP :: OpType where "DELETE_OP = 3"
definition INTERNAL_PUT :: OpType where "INTERNAL_PUT = 10"
definition INTERNAL_GET :: OpType where "INTERNAL_GET = 11"
definition INTERNAL_DELETE :: OpType where "INTERNAL_DELETE = 12"

section \<open>Write-ahead log (storage/wal.cpp)\<close>

text \<open>\<^verbatim>\<open>struct WALEntry { OpType op; Timestamp timestamp; std::string key; std::string value; }\<close>\<close>

record WALEntry =
  op :: OpType
  entry_timestamp :: Timestamp
  key :: string
  entry_value :: string

subsection \<open>CRC32\<close>

text \<open>
  \<^verbatim>\<open>InitCRC32Table\<close>: entry \<open>i\<close> of the table is \<open>i\<close> after eight rounds of
  \<^verbatim>\<open>c = (c >> 1) ^ ((c & 1) ? 0xEDB88320u : 0)\<close>.
\<close>

definition crc32_round :: "u32 \<Rightarrow> u32" where
  "crc32_round c = (drop_bit 1 c) XOR (if c AND 1 \<noteq> 0 then 0xEDB88320 else 0)"

definition crc32_table :: "u32 \<Rightarrow> u32" where
  "crc32_table i = (crc32_round ^^ 8) i"

text \<open>
  \<^verbatim>\<open>ComputeCRC\<close>: \<^verbatim>\<open>crc = 0xFFFFFFFF; for b in data: crc = table[(crc ^ b) & 0xFF] ^ (crc >> 8);
  return crc ^ 0xFFFFFFFF\<close>.
\<close>

definition ComputeCRC :: "bytes \<Rightarrow> u32" where
  "ComputeCRC data =
     (foldl (\<lambda>crc b. crc32_table ((crc XOR ucast b) AND 0xFF) XOR drop_bit 8 crc) 0xFFFFFFFF data)
       XOR 0xFFFFFFFF"

subsection \<open>Append\<close>

text \<open>A \<^verbatim>\<open>std::string\<close> is a sequence of bytes; its characters are copied into the record as bytes.\<close>

definition string_bytes :: "string \<Rightarrow> bytes" where
  "string_bytes s = map of_char s"

definition bytes_string :: "bytes \<Rightarrow> string" where
  "bytes_string bs = map (\<lambda>b. char_of (unat b)) bs"

text \<open>The four \<^verbatim>\<open>push_back((v >> 24) & 0xFF) ... push_back(v & 0xFF)\<close> of a 32-bit value.\<close>

definition be32 :: "u32 \<Rightarrow> bytes" where
  "be32 v = [ucast (drop_bit 24 v AND 0xFF), ucast (drop_bit 16 v AND 0xFF),
             ucast (drop_bit 8 v AND 0xFF), ucast (v AND 0xFF)]"

text \<open>\<^verbatim>\<open>for (int i = 7; i >= 0; --i) record.push_back((ts >> (i * 8)) & 0xFF)\<close>\<close>

definition be64 :: "u64 \<Rightarrow> bytes" where
  "be64 ts = map (\<lambda>i. ucast (drop_bit (i * 8) ts AND 0xFF)) [7, 6, 5, 4, 3, 2, 1, 0]"

text \<open>
  The record without length header and CRC: op, timestamp, key length, key, value length,
  value. The lengths are \<^verbatim>\<open>static_cast<uint32_t>(s.size())\<close>, hence taken modulo \<open>2^32\<close>.
\<close>

definition build_record :: "OpType \<Rightarrow> string \<Rightarrow> string \<Rightarrow> Timestamp \<Rightarrow> bytes" where
  "build_record opc k v ts =
     [opc] @ be64 ts @ be32 (of_nat (length k)) @ string_bytes k
           @ be32 (of_nat (length v)) @ string_bytes v"

text \<open>The on-disk blob \<^verbatim>\<open>[4B entry_size][record][4B crc]\<close>.\<close>

definition build_blob :: "OpType \<Rightarrow> string \<Rightarrow> string \<Rightarrow> Timestamp \<Rightarrow> bytes" where
  "build_blob opc k v ts =
     (let record = build_record opc k v ts;
          crc = ComputeCRC record;
          entry_size = (of_nat (length record) :: u32)
      in be32 entry_size @ record @ be32 crc)"

text \<open>
  The log is its file, a byte sequence opened with \<^verbatim>\<open>O_APPEND\<close>. \<^verbatim>\<open>Append\<close> issues one
  \<^verbatim>\<open>::write(fd_, blob.data(), blob.size())\<close>, which it does not retry: a short count is only
  logged. The call transfers a prefix of the blob: at most the number \<open>n\<close> of bytes that the
  system accepts at this call (0 when the call fails), and at most \<open>0x7ffff000\<close> bytes, the
  most that Linux transfers in one call.
\<close>

definition MAX_RW_COUNT :: nat where
  "MAX_RW_COUNT = 0x7ffff000"

definition sys_write :: "nat \<Rightarrow> bytes \<Rightarrow> bytes" where
  "sys_write n blob = take (min n MAX_RW_COUNT) blob"

definition Append :: "nat \<Rightarrow> OpType \<Rightarrow> string \<Rightarrow> string \<Rightarrow> Timestamp \<Rightarrow> bytes \<Rightarrow> bytes" where
  "Append n opc k v ts file = file @ sys_write n (build_blob opc k v ts)"

subsection \<open>Replay\<close>

text \<open>
  \<^verbatim>\<open>ReadBytes(buf, n)\<close> on the unread rest of the file: the \<open>n\<close> bytes and the new rest, or
  \<open>None\<close> when the file ends first.
\<close>

definition ReadBytes :: "nat \<Rightarrow> bytes \<Rightarrow> (bytes \<times> bytes) option" where
  "ReadBytes n rest = (if length rest < n then None else Some (take n rest, drop n rest))"

definition u32_of_bytes :: "u8 \<Rightarrow> u8 \<Rightarrow> u8 \<Rightarrow> u8 \<Rightarrow> u32" where
  "u32_of_bytes b0 b1 b2 b3 =
     push_bit 24 (ucast b0) OR push_bit 16 (ucast b1) OR push_bit 8 (ucast b2) OR ucast b3"

definition ReadU32 :: "bytes \<Rightarrow> (u32 \<times> bytes) option" where
  "ReadU32 rest =
     (case ReadBytes 4 rest of
        None \<Rightarrow> None
      | Some (b, rest') \<Rightarrow> Some (u32_of_bytes (b ! 0) (b ! 1) (b ! 2) (b ! 3), rest'))"

text \<open>
  Parsing one record; every \<^verbatim>\<open>break\<close> of the source on a field that overflows the record is
  a \<open>None\<close>.
\<close>

definition parse_record :: "bytes \<Rightarrow> WALEntry option" where
  "parse_record record =
     (let pos = (0::nat) in
      if pos \<ge> length record then None
      else
        let opc = record ! pos; pos = pos + 1 in
        if pos + 8 > length record then None
        else
          let ts = foldl (\<lambda>ts b. push_bit 8 ts OR ucast b) (0::u64) (take 8 (drop pos record));
              pos = pos + 8 in
          if pos + 4 > length record then None
          else
            let klen = u32_of_bytes (record ! pos) (record ! (pos + 1))
                                    (record ! (pos + 2)) (record ! (pos + 3));
                pos = pos + 4 in
            if pos + unat klen > length record then None
            else
              let k = bytes_string (take (unat klen) (drop pos record));
                  pos = pos + unat klen in
              if pos + 4 > length record then None
              else
                let vlen = u32_of_bytes (record ! pos) (record ! (pos + 1))
                                        (record ! (pos + 2)) (record ! (pos + 3));
                    pos = pos + 4 in
                if pos + unat vlen > length record then None
                else
                  let v = bytes_string (take (unat vlen) (drop pos record)) in
                  Some \<lparr>op = opc, entry_timestamp = ts, key = k, entry_value = v\<rparr>)"

text \<open>
  The \<^verbatim>\<open>while (true)\<close> loop of \<^verbatim>\<open>Replay\<close> over the unread rest of the file, with the entries
  recovered so far. Every \<^verbatim>\<open>break\<close> returns them.
\<close>

function Replay_loop :: "bytes \<Rightarrow> WALEntry list \<Rightarrow> WALEntry list" where
  "Replay_loop rest entries =
     (case ReadU32 rest of
        None \<Rightarrow> entries
      | Some (entry_size, rest1) \<Rightarrow>
          (case ReadBytes (unat entry_size) rest1 of
             None \<Rightarrow> entries
           | Some (record, rest2) \<Rightarrow>
               (case ReadU32 rest2 of
                  None \<Rightarrow> entries
                | Some (stored_crc, rest3) \<Rightarrow>
                    if ComputeCRC record \<noteq> stored_crc then entries
                    else (case parse_record record of
                            None \<Rightarrow> entries
                          | Some e \<Rightarrow> Replay_loop rest3 (entries @ [e])))))"
  by pat_completeness auto
termination
  by (relation "measure (\<lambda>(rest, entries). length rest)")
     (auto simp: ReadU32_def ReadBytes_def split: if_splits option.splits)

declare Replay_loop.simps [simp del]

text \<open>\<^verbatim>\<open>Replay\<close> seeks to the beginning of the file and runs the loop.\<close>

definition Replay :: "bytes \<Rightarrow> WALEntry list" where
  "Replay file = Replay_loop file []"


text \<open>
  A sequence of \<^verbatim>\<open>Append(op, key, value, ts)\<close> calls on one log, each with the number of
  bytes the system accepts at its write; the entry each call stands for; and the calls whose
  write transfers the whole blob.
\<close>

type_synonym wal_call = "nat \<times> OpType \<times> string \<times> string \<times> Timestamp"

fun Append_all :: "wal_call list \<Rightarrow> bytes \<Rightarrow> bytes" where
  "Append_all [] file = file"
| "Append_all ((n, opc, k, v, ts) # cs) file = Append_all cs (Append n opc k v ts file)"

fun entry_of_call :: "wal_call \<Rightarrow> WALEntry" where
  "entry_of_call (n, opc, k, v, ts) =
     \<lparr>op = opc, entry_timestamp = ts, key = k, entry_value = v\<rparr>"

fun call_complete :: "wal_call \<Rightarrow> bool" where
  "call_complete (n, opc, k, v, ts) = (length (build_blob opc k v ts) \<le> min n MAX_RW_COUNT)"

section \<open>Storage engine (storage/storage\_engine.cpp)\<close>

text \<open>
  The engine owns the in-memory map \<^verbatim>\<open>store_\<close> and the log \<^verbatim>\<open>wal_\<close> (its file). With the log
  comes what the system will do at its coming write calls: \<open>accepts s i\<close> is the number of
  bytes accepted at the \<open>i\<close>-th write from state \<open>s\<close> on.
\<close>

record StorageEngine =
  store :: "string \<rightharpoonup> VersionedValue"
  wal :: bytes
  accepts :: "nat \<Rightarrow> nat"

text \<open>
  The constructor opens the log file at its current content and starts with an empty map;
  \<open>new_engine\<close> is such an engine on a system that cuts no write short.
\<close>

definition new_engine :: "bytes \<Rightarrow> StorageEngine" where
  "new_engine file = \<lparr>store = Map.empty, wal = file, accepts = (\<lambda>i. MAX_RW_COUNT)\<rparr>"

text \<open>The call \<^verbatim>\<open>wal_->Append(op, key, value, ts)\<close> of the engine: it uses up one write.\<close>

definition wal_Append :: "OpType \<Rightarrow> string \<Rightarrow> string \<Rightarrow> Timestamp \<Rightarrow> StorageEngine
                            \<Rightarrow> StorageEngine" where
  "wal_Append opc k v ts s =
     s\<lparr>wal := Append (accepts s 0) opc k v ts (wal s), accepts := (\<lambda>i. accepts s (Suc i))\<rparr>"

text \<open>
  \<^verbatim>\<open>Put\<close>: append to the log, then \<^verbatim>\<open>if (it != end && it->second.timestamp >= ts) return false;
  store_[key] = VersionedValue{value, ts, origin_node}; return true\<close>.
\<close>

definition Put :: "string \<Rightarrow> string \<Rightarrow> Timestamp \<Rightarrow> string \<Rightarrow> StorageEngine
                     \<Rightarrow> bool \<times> StorageEngine" where
  "Put k v ts origin s =
     (let s1 = wal_Append PUT k v ts s in
      if store s1 k \<noteq> None \<and> timestamp (the (store s1 k)) \<ge> ts then (False, s1)
      else (True, s1\<lparr>store := (store s1)(k \<mapsto>
                \<lparr>value = v, timestamp = ts, origin_node = origin\<rparr>)\<rparr>))"

definition Get :: "string \<Rightarrow> StorageEngine \<Rightarrow> VersionedValue option" where
  "Get k s = store s k"

text \<open>
  \<^verbatim>\<open>Delete\<close>: append to the log, then \<^verbatim>\<open>if (it == end) return false;
  if (it->second.timestamp >= ts) return false; store_.erase(it); return true\<close>.
\<close>

definition Delete :: "string \<Rightarrow> Timestamp \<Rightarrow> StorageEngine \<Rightarrow> bool \<times> StorageEngine" where
  "Delete k ts s =
     (let s1 = wal_Append DELETE_OP k [] ts s in
      if store s1 k = None then (False, s1)
      else if timestamp (the (store s1 k)) \<ge> ts then (False, s1)
      else (True, s1\<lparr>store := (store s1)(k := None)\<rparr>))"

definition ConditionalPut :: "string \<Rightarrow> VersionedValue \<Rightarrow> StorageEngine
                                \<Rightarrow> bool \<times> StorageEngine" where
  "ConditionalPut k vv s =
     (let s1 = wal_Append PUT k (value vv) (timestamp vv) s in
      if store s1 k \<noteq> None \<and> timestamp (the (store s1 k)) \<ge> timestamp vv then (False, s1)
      else (True, s1\<lparr>store := (store s1)(k \<mapsto> vv)\<rparr>))"

text \<open>
  \<^verbatim>\<open>BulkPut\<close>: the loop body is \<^verbatim>\<open>if (it == end || it->second.timestamp < vv.timestamp)
  store_[key] = vv;\<close> and nothing else; the function makes no call on \<^verbatim>\<open>wal_\<close>.
\<close>

fun BulkPut :: "(string \<times> VersionedValue) list \<Rightarrow> StorageEngine \<Rightarrow> StorageEngine" where
  "BulkPut [] s = s"
| "BulkPut ((k, vv) # entries) s =
     BulkPut entries
       (if store s k = None \<or> timestamp (the (store s k)) < timestamp vv
        then s\<lparr>store := (store s)(k \<mapsto> vv)\<rparr> else s)"

text \<open>
  \<^verbatim>\<open>Recover\<close>: the loop over the replayed entries. A PUT or INTERNAL\_PUT is applied when the key
  is absent or \<^verbatim>\<open>it->second.timestamp < entry.timestamp\<close>; a DELETE\_OP or INTERNAL\_DELETE
  erases the key when it is present and \<^verbatim>\<open>it->second.timestamp <= entry.timestamp\<close>. The
  counter \<^verbatim>\<open>applied\<close> is only logged.
\<close>

definition Recover_entry :: "WALEntry \<Rightarrow> (string \<rightharpoonup> VersionedValue)
                               \<Rightarrow> (string \<rightharpoonup> VersionedValue)" where
  "Recover_entry entry m =
     (if op entry = PUT \<or> op entry = INTERNAL_PUT then
        (if m (key entry) = None \<or> timestamp (the (m (key entry))) < entry_timestamp entry
         then m(key entry \<mapsto> \<lparr>value = entry_value entry, timestamp = entry_timestamp entry,
                                  origin_node = []\<rparr>)
         else m)
      else if op entry = DELETE_OP \<or> op entry = INTERNAL_DELETE then
        (if m (key entry) \<noteq> None \<and> timestamp (the (m (key entry))) \<le> entry_timestamp entry
         then m(key entry := None)
         else m)
      else m)"

definition Recover :: "StorageEngine \<Rightarrow> StorageEngine" where
  "Recover s = s\<lparr>store := foldl (\<lambda>m entry. Recover_entry entry m) (store s) (Replay (wal s))\<rparr>"

text \<open>A client's sequence of \<^verbatim>\<open>Put\<close> and \<^verbatim>\<open>Delete\<close> calls on one engine.\<close>

datatype engine_op = OpPut string string Timestamp string | OpDelete string Timestamp

fun apply_op :: "engine_op \<Rightarrow> StorageEngine \<Rightarrow> StorageEngine" where
  "apply_op (OpPut k v ts origin) s = snd (Put k v ts origin s)"
| "apply_op (OpDelete k ts) s = snd (Delete k ts s)"

definition apply_ops :: "engine_op list \<Rightarrow> StorageEngine \<Rightarrow> StorageEngine" where
  "apply_ops ops s = foldl (\<lambda>s' x. apply_op x s') s ops"

text \<open>The values written by the PUTs of a key, and the timestamps of its DELETEs, in call order.\<close>

fun put_values :: "string \<Rightarrow> engine_op list \<Rightarrow> VersionedValue list" where
  "put_values k [] = []"
| "put_values k (OpPut k' v ts origin # ops) =
     (if k' = k then \<lparr>value = v, timestamp = ts, origin_node = origin\<rparr> # put_values k ops
      else put_values k ops)"
| "put_values k (OpDelete k' ts # ops) = put_values k ops"

fun delete_stamps :: "string \<Rightarrow> engine_op list \<Rightarrow> Timestamp list" where
  "delete_stamps k [] = []"
| "delete_stamps k (OpPut k' v ts origin # ops) = delete_stamps k ops"
| "delete_stamps k (OpDelete k' ts # ops) =
     (if k' = k then ts # delete_stamps k ops else delete_stamps k ops)"

fun max_timestamp :: "VersionedValue list \<Rightarrow> Timestamp" where
  "max_timestamp [] = 0"
| "max_timestamp (vv # vs) = max (timestamp vv) (max_timestamp vs)"

section \<open>MurmurHash3 (common/murmurhash3.cpp)\<close>

definition rotl32 :: "u32 \<Rightarrow> nat \<Rightarrow> u32" where
  "rotl32 x r = push_bit r x OR drop_bit (32 - r) x"

definition fmix32 :: "u32 \<Rightarrow> u32" where
  "fmix32 h0 =
     (let h = h0 XOR drop_bit 16 h0;
          h = h * 0x85ebca6b;
          h = h XOR drop_bit 13 h;
          h = h * 0xc2b2ae35;
          h = h XOR drop_bit 16 h
      in h)"

definition murmur_c1 :: u32 where "murmur_c1 = 0xcc9e2d51"
definition murmur_c2 :: u32 where "murmur_c2 = 0x1b873593"

text \<open>
  The body loop over the 4-byte blocks; \<^verbatim>\<open>memcpy(&k1, &blocks[i], 4)\<close> reads a block in the
  byte order of x86, least significant byte first. What is left when fewer than four bytes
  remain is the tail.
\<close>

fun murmur_body :: "bytes \<Rightarrow> u32 \<Rightarrow> u32 \<times> bytes" where
  "murmur_body (b0 # b1 # b2 # b3 # rest) h1 =
     (let k1 = ucast b0 OR push_bit 8 (ucast b1) OR push_bit 16 (ucast b2)
                 OR push_bit 24 (ucast b3);
          k1 = k1 * murmur_c1;
          k1 = rotl32 k1 15;
          k1 = k1 * murmur_c2;
          h1 = h1 XOR k1;
          h1 = rotl32 h1 13;
          h1 = h1 * 5 + 0xe6546b64
      in murmur_body rest h1)"
| "murmur_body tail h1 = (h1, tail)"

text \<open>The \<^verbatim>\<open>switch (len & 3)\<close> with its fall-through cases 3, 2, 1.\<close>

definition murmur_tail :: "bytes \<Rightarrow> u32 \<Rightarrow> u32" where
  "murmur_tail tail h1 =
     (let k1 = (0::u32);
          k1 = (if length tail \<ge> 3 then k1 XOR push_bit 16 (ucast (tail ! 2)) else k1);
          k1 = (if length tail \<ge> 2 then k1 XOR push_bit 8 (ucast (tail ! 1)) else k1)
      in if length tail \<ge> 1 then
           (let k1 = k1 XOR ucast (tail ! 0);
                k1 = k1 * murmur_c1;
                k1 = rotl32 k1 15;
                k1 = k1 * murmur_c2
            in h1 XOR k1)
         else h1)"

text \<open>Keys are shorter than \<open>2^31\<close> bytes, so that \<^verbatim>\<open>static_cast<int>(key.size())\<close> is the size.\<close>

definition MurmurHash3_x86_32 :: "bytes \<Rightarrow> u32 \<Rightarrow> u32" where
  "MurmurHash3_x86_32 bs seed =
     (let (h1, tail) = murmur_body bs seed;
          h1 = murmur_tail tail h1;
          h1 = h1 XOR of_nat (length bs)
      in fmix32 h1)"

definition Hash :: "string \<Rightarrow> u32" where
  "Hash k = MurmurHash3_x86_32 (string_bytes k) 0"

section \<open>Decimal rendering (\<^verbatim>\<open>std::to_string\<close> on \<^verbatim>\<open>int\<close>)\<close>

definition digit_char :: "nat \<Rightarrow> char" where
  "digit_char d = ''0123456789'' ! d"

function decimal :: "nat \<Rightarrow> string" where
  "decimal n = (if n < 10 then [digit_char n] else decimal (n div 10) @ [digit_char (n mod 10)])"
  by pat_completeness auto
termination
  by (relation "measure id") auto

declare decimal.simps [simp del]

definition to_string :: "int \<Rightarrow> string" where
  "to_string i = (if i < 0 then CHR ''-'' # decimal (nat (- i)) else decimal (nat i))"

section \<open>Consistent hash ring (cluster/consistent\_hash.cpp)\<close>

text \<open>
  \<^verbatim>\<open>ring_\<close> is a \<^verbatim>\<open>std::map<uint32_t, std::string>\<close>, iterated in increasing key order: a list
  of (position, node id) pairs kept in increasing order of position, one pair per position.
  \<^verbatim>\<open>physical_nodes_\<close> is a \<^verbatim>\<open>std::set<std::string>\<close>.
\<close>

record ConsistentHashRing =
  virtual_nodes :: int
  ring :: "(u32 \<times> string) list"
  physical_nodes :: "string set"

definition new_ring :: "int \<Rightarrow> ConsistentHashRing" where
  "new_ring v = \<lparr>virtual_nodes = v, ring = [], physical_nodes = {}\<rparr>"

text \<open>\<^verbatim>\<open>ring_[hash] = node_id\<close>: insert at the position's place, or overwrite its owner.\<close>

fun map_assign :: "u32 \<Rightarrow> string \<Rightarrow> (u32 \<times> string) list \<Rightarrow> (u32 \<times> string) list" where
  "map_assign h n [] = [(h, n)]"
| "map_assign h n ((p, m) # es) =
     (if h < p then (h, n) # (p, m) # es
      else if h = p then (h, n) # es
      else (p, m) # map_assign h n es)"

text \<open>\<^verbatim>\<open>ring_.erase(hash)\<close>\<close>

definition map_erase :: "u32 \<Rightarrow> (u32 \<times> string) list \<Rightarrow> (u32 \<times> string) list" where
  "map_erase h es = filter (\<lambda>e. fst e \<noteq> h) es"

text \<open>\<^verbatim>\<open>ring_.upper_bound(hash)\<close>: the index of the first position greater than the hash, the
  length of the list for \<^verbatim>\<open>ring_.end()\<close>.\<close>

definition upper_bound :: "u32 \<Rightarrow> (u32 \<times> string) list \<Rightarrow> nat" where
  "upper_bound h es = length (takeWhile (\<lambda>e. fst e \<le> h) es)"

definition VnodeKey :: "string \<Rightarrow> int \<Rightarrow> string" where
  "VnodeKey n i = n @ ''#'' @ to_string i"

definition AddNode :: "string \<Rightarrow> ConsistentHashRing \<Rightarrow> ConsistentHashRing" where
  "AddNode n r =
     (if n \<in> physical_nodes r then r
      else r\<lparr>physical_nodes := insert n (physical_nodes r),
             ring := foldl (\<lambda>m i. map_assign (Hash (VnodeKey n (int i))) n m) (ring r)
                       [0..<nat (virtual_nodes r)]\<rparr>)"

definition RemoveNode :: "string \<Rightarrow> ConsistentHashRing \<Rightarrow> ConsistentHashRing" where
  "RemoveNode n r =
     (if n \<notin> physical_nodes r then r
      else r\<lparr>physical_nodes := physical_nodes r - {n},
             ring := foldl (\<lambda>m i. map_erase (Hash (VnodeKey n (int i))) m) (ring r)
                       [0..<nat (virtual_nodes r)]\<rparr>)"

text \<open>The exceptions thrown by the code modelled here.\<close>

datatype exn =
    HashRing_empty         \<comment> \<open>\<^verbatim>\<open>std::runtime_error("HashRing: empty ring ...")\<close>\<close>
  | ByteBuffer_underflow   \<comment> \<open>\<^verbatim>\<open>std::runtime_error("ByteBuffer: underflow")\<close>\<close>

text \<open>
  The loop of \<^verbatim>\<open>GetNodes\<close>: \<^verbatim>\<open>while (result.size() < count && steps < ring_.size())\<close>, with the
  iterator as an index, \<^verbatim>\<open>ring_.end()\<close> wrapped to \<^verbatim>\<open>ring_.begin()\<close>.
\<close>

function GetNodes_loop :: "(u32 \<times> string) list \<Rightarrow> int \<Rightarrow> nat \<Rightarrow> string list \<Rightarrow> string set
                             \<Rightarrow> nat \<Rightarrow> string list" where
  "GetNodes_loop es count it result seen steps =
     (if int (length result) < count \<and> steps < length es then
        (let it = (if it = length es then 0 else it);
             n = snd (es ! it)
         in if n \<notin> seen
            then GetNodes_loop es count (it + 1) (result @ [n]) (insert n seen) (steps + 1)
            else GetNodes_loop es count (it + 1) result seen (steps + 1))
      else result)"
  by pat_completeness auto
termination
  by (relation "measure (\<lambda>(es, count, it, result, seen, steps). length es - steps)") auto

declare GetNodes_loop.simps [simp del]

definition GetNodes :: "ConsistentHashRing \<Rightarrow> string \<Rightarrow> int \<Rightarrow> exn + string list" where
  "GetNodes r k count =
     (if ring r = [] then Inl HashRing_empty
      else
        let available = int (card (physical_nodes r));
            count = (if count > available then available else count);
            hash = Hash k;
            it = upper_bound hash (ring r)
        in Inr (GetNodes_loop (ring r) count it [] {} 0))"

text \<open>
  The rings that the class can hold: the constructor's empty ring, and what \<open>AddNode\<close> and
  \<open>RemoveNode\<close> make of such a ring.
\<close>

inductive ring_built :: "ConsistentHashRing \<Rightarrow> bool" where
  built_new: "ring_built (new_ring v)"
| built_AddNode: "ring_built r \<Longrightarrow> ring_built (AddNode n r)"
| built_RemoveNode: "ring_built r \<Longrightarrow> ring_built (RemoveNode n r)"

section \<open>Wire buffer (common/protocol.h)\<close>

record ByteBuffer =
  data :: bytes
  read_pos :: nat

definition empty_buffer :: ByteBuffer where
  "empty_buffer = \<lparr>data = [], read_pos = 0\<rparr>"

definition WriteUint8 :: "u8 \<Rightarrow> ByteBuffer \<Rightarrow> ByteBuffer" where
  "WriteUint8 v buf = buf\<lparr>data := data buf @ [v]\<rparr>"

text \<open>\<^verbatim>\<open>htons\<close> and \<^verbatim>\<open>htonl\<close> followed by the copy of the bytes: most significant byte first.\<close>

definition WriteUint16 :: "u16 \<Rightarrow> ByteBuffer \<Rightarrow> ByteBuffer" where
  "WriteUint16 v buf = buf\<lparr>data := data buf @ [ucast (drop_bit 8 v), ucast v]\<rparr>"

definition WriteUint32 :: "u32 \<Rightarrow> ByteBuffer \<Rightarrow> ByteBuffer" where
  "WriteUint32 v buf = buf\<lparr>data := data buf @ be32 v\<rparr>"

definition WriteUint64 :: "u64 \<Rightarrow> ByteBuffer \<Rightarrow> ByteBuffer" where
  "WriteUint64 v buf = buf\<lparr>data := data buf @ be64 v\<rparr>"

definition WriteString :: "string \<Rightarrow> ByteBuffer \<Rightarrow> ByteBuffer" where
  "WriteString s buf =
     (let buf1 = WriteUint32 (of_nat (length s)) buf
      in buf1\<lparr>data := data buf1 @ string_bytes s\<rparr>)"

definition WriteBool :: "bool \<Rightarrow> ByteBuffer \<Rightarrow> ByteBuffer" where
  "WriteBool v buf = WriteUint8 (if v then 1 else 0) buf"

text \<open>\<^verbatim>\<open>EnsureReadable(n)\<close> throws when \<^verbatim>\<open>read_pos_ + n > data_.size()\<close>.\<close>

definition EnsureReadable :: "nat \<Rightarrow> ByteBuffer \<Rightarrow> bool" where
  "EnsureReadable n buf = (\<not> read_pos buf + n > length (data buf))"

definition ReadUint8 :: "ByteBuffer \<Rightarrow> exn + (u8 \<times> ByteBuffer)" where
  "ReadUint8 buf =
     (if \<not> EnsureReadable 1 buf then Inl ByteBuffer_underflow
      else Inr (data buf ! read_pos buf, buf\<lparr>read_pos := read_pos buf + 1\<rparr>))"

definition ReadUint16 :: "ByteBuffer \<Rightarrow> exn + (u16 \<times> ByteBuffer)" where
  "ReadUint16 buf =
     (if \<not> EnsureReadable 2 buf then Inl ByteBuffer_underflow
      else Inr (push_bit 8 (ucast (data buf ! read_pos buf))
                  OR ucast (data buf ! (read_pos buf + 1)),
                buf\<lparr>read_pos := read_pos buf + 2\<rparr>))"

definition ReadUint32 :: "ByteBuffer \<Rightarrow> exn + (u32 \<times> ByteBuffer)" where
  "ReadUint32 buf =
     (if \<not> EnsureReadable 4 buf then Inl ByteBuffer_underflow
      else Inr (u32_of_bytes (data buf ! read_pos buf) (data buf ! (read_pos buf + 1))
                             (data buf ! (read_pos buf + 2)) (data buf ! (read_pos buf + 3)),
                buf\<lparr>read_pos := read_pos buf + 4\<rparr>))"

definition ReadUint64 :: "ByteBuffer \<Rightarrow> exn + (u64 \<times> ByteBuffer)" where
  "ReadUint64 buf =
     (if \<not> EnsureReadable 8 buf then Inl ByteBuffer_underflow
      else Inr (foldl (\<lambda>val b. push_bit 8 val OR ucast b) 0
                      (take 8 (drop (read_pos buf) (data buf))),
                buf\<lparr>read_pos := read_pos buf + 8\<rparr>))"

definition ReadString :: "ByteBuffer \<Rightarrow> exn + (string \<times> ByteBuffer)" where
  "ReadString buf =
     (case ReadUint32 buf of
        Inl e \<Rightarrow> Inl e
      | Inr (len, buf1) \<Rightarrow>
          if \<not> EnsureReadable (unat len) buf1 then Inl ByteBuffer_underflow
          else Inr (bytes_string (take (unat len) (drop (read_pos buf1) (data buf1))),
                    buf1\<lparr>read_pos := read_pos buf1 + unat len\<rparr>))"

definition ReadBool :: "ByteBuffer \<Rightarrow> exn + (bool \<times> ByteBuffer)" where
  "ReadBool buf =
     (case ReadUint8 buf of Inl e \<Rightarrow> Inl e | Inr (b, buf1) \<Rightarrow> Inr (b \<noteq> 0, buf1))"

text \<open>\<^verbatim>\<open>enum class StatusCode : uint8_t { OK = 0, NOT_FOUND = 1, ERROR = 2 }\<close>\<close>

definition StatusCode_OK :: u8 where "StatusCode_OK = 0"
definition StatusCode_NOT_FOUND :: u8 where "StatusCode_NOT_FOUND = 1"
definition StatusCode_ERROR :: u8 where "StatusCode_ERROR = 2"

definition MakeOkResponse :: ByteBuffer where
  "MakeOkResponse = WriteUint8 StatusCode_OK empty_buffer"

definition MakeErrorResponse :: "string \<Rightarrow> ByteBuffer" where
  "MakeErrorResponse msg = WriteString msg (WriteUint8 StatusCode_ERROR empty_buffer)"

definition MakeNotFoundResponse :: ByteBuffer where
  "MakeNotFoundResponse = WriteUint8 StatusCode_NOT_FOUND empty_buffer"

definition MakeValueResponse :: "VersionedValue \<Rightarrow> ByteBuffer" where
  "MakeValueResponse vv =
     WriteString (origin_node vv)
       (WriteUint64 (timestamp vv)
         (WriteString (value vv) (WriteUint8 StatusCode_OK empty_buffer)))"

section \<open>Membership (cluster/membership.cpp)\<close>

text \<open>
  \<^verbatim>\<open>struct NodeInfo { std::string node_id; std::string host; uint16_t port = 0;
  bool is_alive = true; Timestamp last_heartbeat = 0; }\<close>
\<close>

record NodeInfo =
  node_id :: string
  host :: string
  port :: u16
  is_alive :: bool
  last_heartbeat :: Timestamp

text \<open>The manager's own entry \<^verbatim>\<open>self_\<close> and the map \<^verbatim>\<open>members_\<close> from node id to entry.\<close>

record MembershipManager =
  self :: NodeInfo
  members :: "string \<rightharpoonup> NodeInfo"

text \<open>
  \<^verbatim>\<open>AddMember\<close>: an unknown node is inserted as it comes. For a known node, if the incoming
  heartbeat is newer, \<^verbatim>\<open>it->second.last_heartbeat = node.last_heartbeat\<close> and, if the stored
  entry was dead and the incoming one is alive, \<^verbatim>\<open>it->second.is_alive = true\<close>. The result
  carries \<^verbatim>\<open>is_new\<close>, on which the \<^verbatim>\<open>on_join_\<close> callback is invoked with the incoming node.
\<close>

definition AddMember :: "NodeInfo \<Rightarrow> MembershipManager \<Rightarrow> MembershipManager \<times> bool" where
  "AddMember node mm =
     (case members mm (node_id node) of
        None \<Rightarrow> (mm\<lparr>members := (members mm)(node_id node \<mapsto> node)\<rparr>, True)
      | Some cur \<Rightarrow>
          if last_heartbeat node > last_heartbeat cur then
            (let cur1 = cur\<lparr>last_heartbeat := last_heartbeat node\<rparr> in
             if \<not> is_alive cur1 \<and> is_alive node
             then (mm\<lparr>members := (members mm)(node_id node \<mapsto> cur1\<lparr>is_alive := True\<rparr>)\<rparr>, True)
             else (mm\<lparr>members := (members mm)(node_id node \<mapsto> cur1)\<rparr>, False))
          else (mm, False))"

definition GetMember :: "string \<Rightarrow> MembershipManager \<Rightarrow> NodeInfo option" where
  "GetMember n mm = members mm n"

text \<open>One entry of a gossip message: node id, host, port, heartbeat, liveness.\<close>

definition read_gossip_entry :: "ByteBuffer \<Rightarrow> exn + (NodeInfo \<times> ByteBuffer)" where
  "read_gossip_entry msg =
     (case ReadString msg of Inl e \<Rightarrow> Inl e | Inr (nid, msg1) \<Rightarrow>
      case ReadString msg1 of Inl e \<Rightarrow> Inl e | Inr (h, msg2) \<Rightarrow>
      case ReadUint16 msg2 of Inl e \<Rightarrow> Inl e | Inr (p, msg3) \<Rightarrow>
      case ReadUint64 msg3 of Inl e \<Rightarrow> Inl e | Inr (hb, msg4) \<Rightarrow>
      case ReadBool msg4 of Inl e \<Rightarrow> Inl e | Inr (alive, msg5) \<Rightarrow>
        Inr (\<lparr>node_id = nid, host = h, port = p, is_alive = alive, last_heartbeat = hb\<rparr>,
             msg5))"

text \<open>
  The loop of \<^verbatim>\<open>HandleGossipMessage\<close> over the remaining \<open>count\<close> entries. An underflow while
  reading leaves the entries merged so far in place; the result carries the exception, if
  any, the manager, and the nodes on which \<^verbatim>\<open>on_join_\<close> was invoked.
\<close>

fun gossip_loop :: "nat \<Rightarrow> ByteBuffer \<Rightarrow> MembershipManager \<Rightarrow> NodeInfo list
                      \<Rightarrow> exn option \<times> MembershipManager \<times> NodeInfo list" where
  "gossip_loop 0 msg mm joined = (None, mm, joined)"
| "gossip_loop (Suc c) msg mm joined =
     (case read_gossip_entry msg of
        Inl e \<Rightarrow> (Some e, mm, joined)
      | Inr (info, msg') \<Rightarrow>
          if node_id info = node_id (self mm) then gossip_loop c msg' mm joined
          else
            (case AddMember info mm of
               (mm', is_new) \<Rightarrow>
                 gossip_loop c msg' mm' (if is_new then joined @ [info] else joined)))"

definition HandleGossipMessage :: "ByteBuffer \<Rightarrow> MembershipManager
                                     \<Rightarrow> exn option \<times> MembershipManager \<times> NodeInfo list" where
  "HandleGossipMessage msg mm =
     (case ReadUint32 msg of
        Inl e \<Rightarrow> (Some e, mm, [])
      | Inr (count, msg1) \<Rightarrow> gossip_loop (unat count) msg1 mm [])"

text \<open>
  \<^verbatim>\<open>CreateGossipMessage\<close>, for the members in the iteration order of the member map: the
  opcode byte \<^verbatim>\<open>OpType::GOSSIP\<close>, the count, the entries.
\<close>

definition GOSSIP :: OpType where "GOSSIP = 40"

definition write_gossip_entry :: "NodeInfo \<Rightarrow> ByteBuffer \<Rightarrow> ByteBuffer" where
  "write_gossip_entry info buf =
     WriteBool (is_alive info)
       (WriteUint64 (last_heartbeat info)
         (WriteUint16 (port info)
           (WriteString (host info)
             (WriteString (node_id info) buf))))"

definition CreateGossipMessage :: "NodeInfo list \<Rightarrow> ByteBuffer" where
  "CreateGossipMessage infos =
     foldl (\<lambda>buf info. write_gossip_entry info buf)
           (WriteUint32 (of_nat (length infos)) (WriteUint8 GOSSIP empty_buffer)) infos"

section \<open>Replication (cluster/replication.cpp)\<close>

record ReplicationManager =
  self_id :: string
  cfg_N :: int
  cfg_R :: int
  cfg_W :: int

text \<open>\<^verbatim>\<open>struct WriteResult { bool success = false; int acks = 0; std::string error; }\<close>\<close>

record WriteResult =
  success :: bool
  acks :: int
  error :: string

text \<open>
  \<^verbatim>\<open>struct ReadResult { bool success = false; std::optional<VersionedValue> value;
  int responses = 0; std::string error; }\<close>
\<close>

record ReadResult =
  read_success :: bool
  read_value :: "VersionedValue option"
  responses :: int
  read_error :: string

record ReadResponse =
  ok :: bool
  resp_value :: "VersionedValue option"
  resp_node_id :: string

text \<open>
  The peers. \<open>remote_put host port key value ts sid\<close> is the outcome of the remote-write task
  (connect, \<^verbatim>\<open>InternalPut\<close>, status byte is OK); \<open>remote_get host port key\<close> is \<open>None\<close> when the
  remote-read task ends with \<^verbatim>\<open>ok = false\<close> or throws, and the value it read otherwise.
\<close>

record Network =
  remote_put :: "string \<Rightarrow> u16 \<Rightarrow> string \<Rightarrow> string \<Rightarrow> Timestamp \<Rightarrow> string \<Rightarrow> bool"
  remote_get :: "string \<Rightarrow> u16 \<Rightarrow> string \<Rightarrow> VersionedValue option option"

text \<open>
  The loop launching one write per replica, with the result each future yields: the local
  replica writes through \<open>Put\<close>, a peer that is unknown or marked dead yields false, any
  other peer yields the outcome of the remote write.
\<close>

fun launch_puts :: "Network \<Rightarrow> string \<Rightarrow> MembershipManager \<Rightarrow> string \<Rightarrow> string \<Rightarrow> Timestamp
                      \<Rightarrow> string list \<Rightarrow> StorageEngine \<Rightarrow> bool list \<times> StorageEngine" where
  "launch_puts net sid mm k v ts [] st = ([], st)"
| "launch_puts net sid mm k v ts (n # ns) st =
     (if n = sid then
        (case Put k v ts sid st of
           (b, st1) \<Rightarrow>
             (case launch_puts net sid mm k v ts ns st1 of (bs, st2) \<Rightarrow> (b # bs, st2)))
      else
        (case launch_puts net sid mm k v ts ns st of
           (bs, st2) \<Rightarrow>
             (case GetMember n mm of
                None \<Rightarrow> (False # bs, st2)
              | Some member \<Rightarrow>
                  if \<not> is_alive member then (False # bs, st2)
                  else (remote_put net (host member) (port member) k v ts sid # bs, st2))))"

text \<open>\<^verbatim>\<open>for (auto& fut : futures) if (fut.get()) result.acks++;\<close>\<close>

definition count_acks :: "bool list \<Rightarrow> int" where
  "count_acks futures = foldl (\<lambda>a b. if b then a + 1 else a) 0 futures"

text \<open>\<open>ReplicatedPut\<close>, with \<open>ts\<close> the value of \<^verbatim>\<open>NowMs()\<close> at the call.\<close>

definition ReplicatedPut :: "Network \<Rightarrow> ReplicationManager \<Rightarrow> ConsistentHashRing
    \<Rightarrow> MembershipManager \<Rightarrow> Timestamp \<Rightarrow> string \<Rightarrow> string \<Rightarrow> StorageEngine
    \<Rightarrow> exn + (WriteResult \<times> StorageEngine)" where
  "ReplicatedPut net rm r mm ts k v st =
     (case GetNodes r k (cfg_N rm) of
        Inl e \<Rightarrow> Inl e
      | Inr nodes \<Rightarrow>
          if nodes = [] then
            Inr (\<lparr>success = False, acks = 0, error = ''No nodes available''\<rparr>, st)
          else
            (case launch_puts net (self_id rm) mm k v ts nodes st of
               (futures, st') \<Rightarrow>
                 let a = count_acks futures;
                     ok_w = (a \<ge> cfg_W rm)
                 in Inr (\<lparr>success = ok_w, acks = a,
                          error = (if \<not> ok_w
                                   then ''Quorum not reached: '' @ to_string a @ ''/''
                                        @ to_string (cfg_W rm) @ '' acks''
                                   else [])\<rparr>, st')))"

text \<open>The read launched per replica.\<close>

definition launch_get :: "Network \<Rightarrow> string \<Rightarrow> MembershipManager \<Rightarrow> string \<Rightarrow> StorageEngine
                            \<Rightarrow> string \<Rightarrow> ReadResponse" where
  "launch_get net sid mm k st n =
     (if n = sid then \<lparr>ok = True, resp_value = Get k st, resp_node_id = sid\<rparr>
      else
        (case GetMember n mm of
           None \<Rightarrow> \<lparr>ok = False, resp_value = None, resp_node_id = n\<rparr>
         | Some member \<Rightarrow>
             if \<not> is_alive member then \<lparr>ok = False, resp_value = None, resp_node_id = n\<rparr>
             else
               (case remote_get net (host member) (port member) k of
                  None \<Rightarrow> \<lparr>ok = False, resp_value = None, resp_node_id = n\<rparr>
                | Some val \<Rightarrow> \<lparr>ok = True, resp_value = val, resp_node_id = n\<rparr>)))"

text \<open>
  \<^verbatim>\<open>for (resp : responses) if (resp.value && resp.value->timestamp > latest.timestamp)
  { latest = *resp.value; found = true; }\<close>
\<close>

fun find_latest :: "ReadResponse list \<Rightarrow> VersionedValue \<Rightarrow> bool \<Rightarrow> VersionedValue \<times> bool" where
  "find_latest [] latest found = (latest, found)"
| "find_latest (resp # rs) latest found =
     (if resp_value resp \<noteq> None \<and> timestamp (the (resp_value resp)) > timestamp latest
      then find_latest rs (the (resp_value resp)) True
      else find_latest rs latest found)"

text \<open>
  Read repair on the local engine: a stale or missing local response is repaired with
  \<open>ConditionalPut\<close>; the repair of a peer is a detached thread that touches no local state.
\<close>

fun read_repair :: "string \<Rightarrow> string \<Rightarrow> VersionedValue \<Rightarrow> ReadResponse list \<Rightarrow> StorageEngine
                      \<Rightarrow> StorageEngine" where
  "read_repair sid k latest [] st = st"
| "read_repair sid k latest (resp # rs) st =
     read_repair sid k latest rs
       (if (resp_value resp = None \<or> timestamp (the (resp_value resp)) < timestamp latest)
           \<and> resp_node_id resp = sid
        then snd (ConditionalPut k latest st) else st)"

definition ReplicatedGet :: "Network \<Rightarrow> ReplicationManager \<Rightarrow> ConsistentHashRing
    \<Rightarrow> MembershipManager \<Rightarrow> string \<Rightarrow> StorageEngine
    \<Rightarrow> exn + (ReadResult \<times> StorageEngine)" where
  "ReplicatedGet net rm r mm k st =
     (case GetNodes r k (cfg_N rm) of
        Inl e \<Rightarrow> Inl e
      | Inr nodes \<Rightarrow>
          if nodes = [] then
            Inr (\<lparr>read_success = False, read_value = None, responses = 0,
                  read_error = ''No nodes available''\<rparr>, st)
          else
            let resps = filter ok (map (launch_get net (self_id rm) mm k st) nodes);
                cnt = int (length resps)
            in if cnt < cfg_R rm then
                 Inr (\<lparr>read_success = False, read_value = None, responses = cnt,
                       read_error = ''Read quorum not reached: '' @ to_string cnt @ ''/''
                                    @ to_string (cfg_R rm)\<rparr>, st)
               else
                 (case find_latest resps \<lparr>value = [], timestamp = 0, origin_node = []\<rparr> False of
                    (latest, found) \<Rightarrow>
                      if found then
                        Inr (\<lparr>read_success = True, read_value = Some latest, responses = cnt,
                              read_error = []\<rparr>,
                             read_repair (self_id rm) k latest resps st)
                      else
                        Inr (\<lparr>read_success = True, read_value = None, responses = cnt,
                              read_error = []\<rparr>, st)))"

section \<open>Coordinator (server/coordinator.cpp)\<close>

text \<open>
  \<open>HandlePut\<close>: parse key and value, run the quorum write, reply OK on success and the
  error message otherwise.
\<close>

definition HandlePut :: "Network \<Rightarrow> ReplicationManager \<Rightarrow> ConsistentHashRing
    \<Rightarrow> MembershipManager \<Rightarrow> Timestamp \<Rightarrow> ByteBuffer \<Rightarrow> StorageEngine
    \<Rightarrow> exn + (ByteBuffer \<times> StorageEngine)" where
  "HandlePut net rm r mm ts payload st =
     (case ReadString payload of Inl e \<Rightarrow> Inl e | Inr (k, payload1) \<Rightarrow>
      case ReadString payload1 of Inl e \<Rightarrow> Inl e | Inr (v, payload2) \<Rightarrow>
      case ReplicatedPut net rm r mm ts k v st of
        Inl e \<Rightarrow> Inl e
      | Inr (result, st') \<Rightarrow>
          if success result then Inr (MakeOkResponse, st')
          else Inr (MakeErrorResponse (error result), st'))"

text \<open>
  \<open>HandleInternalPut\<close>: the result of \<open>ConditionalPut\<close> is dropped and the reply is OK.
\<close>

definition HandleInternalPut :: "ByteBuffer \<Rightarrow> StorageEngine \<Rightarrow> exn + (ByteBuffer \<times> StorageEngine)" where
  "HandleInternalPut payload st =
     (case ReadString payload of Inl e \<Rightarrow> Inl e | Inr (k, payload1) \<Rightarrow>
      case ReadString payload1 of Inl e \<Rightarrow> Inl e | Inr (v, payload2) \<Rightarrow>
      case ReadUint64 payload2 of Inl e \<Rightarrow> Inl e | Inr (ts, payload3) \<Rightarrow>
      case ReadString payload3 of Inl e \<Rightarrow> Inl e | Inr (origin, payload4) \<Rightarrow>
        Inr (MakeOkResponse,
             snd (ConditionalPut k \<lparr>value = v, timestamp = ts, origin_node = origin\<rparr> st)))"

text \<open>The payloads a client and a peer build for these two requests, after the opcode byte.\<close>

definition put_payload :: "string \<Rightarrow> string \<Rightarrow> ByteBuffer" where
  "put_payload k v = WriteString v (WriteString k empty_buffer)"

definition internal_put_payload :: "string \<Rightarrow> string \<Rightarrow> Timestamp \<Rightarrow> string \<Rightarrow> ByteBuffer" where
  "internal_put_payload k v ts origin =
     WriteString origin (WriteUint64 ts (WriteString v (WriteString k empty_buffer)))"

section \<open>Notions used in the proofs\<close>

text \<open>
  The owners of the ring positions that the loop of \<open>GetNodes\<close> has still to visit when its
  iterator is \<open>it\<close> and \<open>steps\<close> positions have been visited.
\<close>

definition rem_owners :: "(u32 \<times> string) list \<Rightarrow> nat \<Rightarrow> nat \<Rightarrow> string set" where
  "rem_owners es it steps =
     (\<lambda>j. snd (es ! ((it + j) mod length es))) ` {..<length es - steps}"

text \<open>
  What holds of every ring the class can hold: the physical nodes are finitely many, and
  every ring position is owned by a physical node and is one of its virtual positions.
\<close>

definition ring_inv :: "ConsistentHashRing \<Rightarrow> bool" where
  "ring_inv r =
     (finite (physical_nodes r) \<and>
      (\<forall>e\<in>set (ring r). snd e \<in> physical_nodes r \<and>
         (\<exists>i<nat (virtual_nodes r). fst e = Hash (VnodeKey (snd e) (int i)))))"

section \<open>Values used in the examples\<close>

text \<open>
  The constructor of \<open>MembershipManager\<close>: the own entry, with \<^verbatim>\<open>last_heartbeat = NowMs()\<close> and
  \<^verbatim>\<open>is_alive = true\<close>, is the only member.
\<close>

definition new_MembershipManager :: "NodeInfo \<Rightarrow> Timestamp \<Rightarrow> MembershipManager" where
  "new_MembershipManager s now =
     (let s1 = s\<lparr>last_heartbeat := now, is_alive := True\<rparr>
      in \<lparr>self = s1, members = [node_id s1 \<mapsto> s1]\<rparr>)"

text \<open>A \<open>NodeInfo\<close> with the default member initialisers of the struct.\<close>

definition node_info :: "string \<Rightarrow> string \<Rightarrow> u16 \<Rightarrow> NodeInfo" where
  "node_info n h p = \<lparr>node_id = n, host = h, port = p, is_alive = True, last_heartbeat = 0\<rparr>"

text \<open>A network on which every remote call fails.\<close>

definition no_peers :: Network where
  "no_peers = \<lparr>remote_put = (\<lambda>h p k v ts sid. False), remote_get = (\<lambda>h p k. None)\<rparr>"

text \<open>
  \<open>RemoveMember\<close>: the own entry is never removed; a known member is marked dead, on which
  the \<^verbatim>\<open>on_leave_\<close> callback is invoked.
\<close>

definition RemoveMember :: "string \<Rightarrow> MembershipManager \<Rightarrow> MembershipManager \<times> bool" where
  "RemoveMember n mm =
     (if n = node_id (self mm) then (mm, False)
      else
        (case members mm n of
           None \<Rightarrow> (mm, False)
         | Some m \<Rightarrow> (mm\<lparr>members := (members mm)(n \<mapsto> m\<lparr>is_alive := False\<rparr>)\<rparr>, True)))"

text \<open>
  A cluster of three nodes A, B, C seen from A, one virtual node each, after B and C have
  been marked dead.
\<close>

definition ring_ABC :: ConsistentHashRing where
  "ring_ABC = AddNode ''C'' (AddNode ''B'' (AddNode ''A'' (new_ring 1)))"

definition members_A_alone :: MembershipManager where
  "members_A_alone =
     fst (RemoveMember ''C'' (fst (RemoveMember ''B''
       (fst (AddMember (node_info ''C'' ''10.0.0.3'' 7000)
         (fst (AddMember (node_info ''B'' ''10.0.0.2'' 7000)
           (new_MembershipManager (node_info ''A'' ''10.0.0.1'' 7000) 1000))))))))"

text \<open>The ring of the three nodes A, B, C with two virtual nodes each.\<close>

definition ring_ABC_2 :: ConsistentHashRing where
  "ring_ABC_2 = AddNode ''C'' (AddNode ''B'' (AddNode ''A'' (new_ring 2)))"

section \<open>Write-ahead log: serialisation round trip\<close>

lemma mask8_u32: "(255::u32) = mask 8"
  by (simp add: mask_eq_exp_minus_1)

lemma u32_of_bytes_be32:
  "u32_of_bytes (ucast (drop_bit 24 v AND 0xFF)) (ucast (drop_bit 16 v AND 0xFF))
                (ucast (drop_bit 8 v AND 0xFF)) (ucast (v AND 0xFF)) = v"
  (is "?l = v")
proof (rule bit_eqI)
  fix n :: nat
  consider "n < 8" | "8 \<le> n" "n < 16" | "16 \<le> n" "n < 24" | "24 \<le> n"
    by linarith
  then show "bit ?l n = bit v n"
    unfolding u32_of_bytes_def
    by cases (auto simp: mask8_u32 bit_simps dest: bit_imp_le_length)
qed

lemma length_be32 [simp]: "length (be32 v) = 4"
  by (simp add: be32_def)

lemma length_be64 [simp]: "length (be64 v) = 8"
  by (simp add: be64_def)

lemma mask8_u64: "(255::u64) = mask 8"
  by (simp add: mask_eq_exp_minus_1)

lemma u64_low_byte:
  "push_bit 8 (drop_bit 8 x) OR ucast (ucast (x AND 0xFF) :: u8) = (x :: u64)"
  (is "?l = x")
proof (rule bit_eqI)
  fix n :: nat
  show "bit ?l n = bit x n"
    by (cases "n < 8") (auto simp: mask8_u64 bit_simps dest: bit_imp_le_length)
qed

lemma ts_of_be64: "foldl (\<lambda>ts b. push_bit 8 ts OR ucast b) (0::u64) (be64 ts) = ts"
proof -
  define f :: "u64 \<Rightarrow> u8 \<Rightarrow> u64" where "f = (\<lambda>a b. push_bit 8 a OR ucast b)"
  define B :: "nat \<Rightarrow> u8" where "B = (\<lambda>j. ucast (drop_bit j ts AND 0xFF))"
  have step: "f (drop_bit (8 + j) ts) (B j) = drop_bit j ts" for j
    using u64_low_byte [of "drop_bit j ts"]
    by (simp only: f_def B_def drop_bit_drop_bit add.commute)
  have "drop_bit 64 ts = 0"
    by (rule bit_eqI) (simp add: bit_simps)
  then have s56: "f 0 (B 56) = drop_bit 56 ts"
    using step [of 56] by simp
  have "foldl f 0 (be64 ts) = f (f (f (f (f (f (f (f 0 (B 56)) (B 48)) (B 40)) (B 32)) (B 24)) (B 16)) (B 8)) (B 0)"
    by (simp add: be64_def B_def)
  also have "\<dots> = f (f (f (f (f (f (f (drop_bit 56 ts) (B 48)) (B 40)) (B 32)) (B 24)) (B 16)) (B 8)) (B 0)"
    by (simp only: s56)
  also have "\<dots> = f (f (f (f (f (f (drop_bit 48 ts) (B 40)) (B 32)) (B 24)) (B 16)) (B 8)) (B 0)"
    using step [of 48] by simp
  also have "\<dots> = f (f (f (f (f (drop_bit 40 ts) (B 32)) (B 24)) (B 16)) (B 8)) (B 0)"
    using step [of 40] by simp
  also have "\<dots> = f (f (f (f (drop_bit 32 ts) (B 24)) (B 16)) (B 8)) (B 0)"
    using step [of 32] by simp
  also have "\<dots> = f (f (f (drop_bit 24 ts) (B 16)) (B 8)) (B 0)"
    using step [of 24] by simp
  also have "\<dots> = f (f (drop_bit 16 ts) (B 8)) (B 0)"
    using step [of 16] by simp
  also have "\<dots> = f (drop_bit 8 ts) (B 0)"
    using step [of 8] by simp
  also have "\<dots> = ts"
    using step [of 0] by simp
  finally show ?thesis
    by (simp only: f_def)
qed

lemma unat_of_char: "unat (of_char a :: u8) = of_char a"
proof -
  have "(of_char a :: u8) = of_nat (of_char a)" by (simp only: of_nat_of_char)
  moreover have "(of_char a :: nat) < 256" by simp
  ultimately show ?thesis by (simp add: unat_of_nat del: of_nat_of_char)
qed

lemma bytes_string_string_bytes [simp]: "bytes_string (string_bytes s) = s"
  by (induction s) (simp_all add: bytes_string_def string_bytes_def unat_of_char)

lemma length_string_bytes [simp]: "length (string_bytes s) = length s"
  by (simp add: string_bytes_def)

lemma ReadU32_be32: "ReadU32 (be32 v @ rest) = Some (v, rest)"
proof -
  have "take 4 (be32 v @ rest) = be32 v" by simp
  then show ?thesis
    by (simp add: ReadU32_def ReadBytes_def) (simp add: be32_def u32_of_bytes_be32)
qed

lemma length_build_record:
  "length (build_record opc k v ts) = 17 + length k + length v"
  by (simp add: build_record_def)

lemma parse_record_shape:
  assumes "length A = 8"
    and "unat (u32_of_bytes b0 b1 b2 b3) = length K"
    and "unat (u32_of_bytes c0 c1 c2 c3) = length V"
  shows "parse_record (opc # A @ [b0, b1, b2, b3] @ K @ [c0, c1, c2, c3] @ V)
         = Some \<lparr>op = opc,
                  entry_timestamp = foldl (\<lambda>ts b. push_bit 8 ts OR ucast b) 0 A,
                  key = bytes_string K, entry_value = bytes_string V\<rparr>"
proof -
  define r where "r = opc # A @ [b0, b1, b2, b3] @ K @ [c0, c1, c2, c3] @ V"
  have len: "length r = 17 + length K + length V"
    by (simp add: r_def assms(1))
  have r0: "r ! 0 = opc"
    by (simp add: r_def)
  have t8: "take 8 (drop (Suc 0) r) = A"
    by (simp add: r_def assms(1))
  have d9: "drop 9 r = [b0, b1, b2, b3] @ K @ [c0, c1, c2, c3] @ V"
    by (simp add: r_def assms(1))
  have kb: "r ! 9 = b0" "r ! 10 = b1" "r ! 11 = b2" "r ! 12 = b3"
    using d9 by (simp_all add: r_def nth_append assms(1))
  have d13: "drop 13 r = K @ [c0, c1, c2, c3] @ V"
    by (simp add: r_def assms(1))
  have tk: "take (length K) (drop 13 r) = K"
    by (simp add: d13)
  define P where "P = opc # A @ [b0, b1, b2, b3] @ K"
  have lenP: "length P = 13 + length K"
    by (simp add: P_def assms(1))
  have rP: "r = P @ ([c0, c1, c2, c3] @ V)"
    by (simp add: r_def P_def)
  have vb: "r ! (13 + length K) = c0" "r ! (14 + length K) = c1"
           "r ! (15 + length K) = c2" "r ! (16 + length K) = c3"
    using nth_append_length_plus [of P "[c0, c1, c2, c3] @ V" 0]
          nth_append_length_plus [of P "[c0, c1, c2, c3] @ V" 1]
          nth_append_length_plus [of P "[c0, c1, c2, c3] @ V" 2]
          nth_append_length_plus [of P "[c0, c1, c2, c3] @ V" 3]
    by (simp_all add: rP lenP add.commute)
  have "length (P @ [c0, c1, c2, c3]) = 17 + length K"
    by (simp add: lenP)
  then have dV: "drop (17 + length K) r = V"
    using append_eq_conv_conj [of "P @ [c0, c1, c2, c3]" V r] by (simp add: rP)
  show ?thesis
    unfolding r_def [symmetric] parse_record_def
    by (simp add: Let_def len r0 t8 kb assms(2,3) tk vb dV)
qed

lemma parse_build_record:
  assumes "17 + length k + length v < 2 ^ 32"
  shows "parse_record (build_record opc k v ts)
         = Some \<lparr>op = opc, entry_timestamp = ts, key = k, entry_value = v\<rparr>"
proof -
  define kl :: u32 where "kl = of_nat (length k)"
  define vl :: u32 where "vl = of_nat (length v)"
  have "length k < 2 ^ 32" "length v < 2 ^ 32"
    using assms by simp_all
  then have kl: "unat kl = length (string_bytes k)"
    and vl: "unat vl = length (string_bytes v)"
    by (simp_all add: unat_of_nat kl_def vl_def)
  have "parse_record (opc # be64 ts
           @ [ucast (drop_bit 24 kl AND 0xFF), ucast (drop_bit 16 kl AND 0xFF),
              ucast (drop_bit 8 kl AND 0xFF), ucast (kl AND 0xFF)] @ string_bytes k
           @ [ucast (drop_bit 24 vl AND 0xFF), ucast (drop_bit 16 vl AND 0xFF),
              ucast (drop_bit 8 vl AND 0xFF), ucast (vl AND 0xFF)] @ string_bytes v)
        = Some \<lparr>op = opc,
                 entry_timestamp = foldl (\<lambda>ts b. push_bit 8 ts OR ucast b) 0 (be64 ts),
                 key = bytes_string (string_bytes k),
                 entry_value = bytes_string (string_bytes v)\<rparr>"
    by (rule parse_record_shape) (simp_all only: length_be64 u32_of_bytes_be32 kl vl)
  then show ?thesis
    by (simp only: build_record_def be32_def ts_of_be64 bytes_string_string_bytes
                   append_Cons append_Nil kl_def vl_def)
qed

lemma Replay_loop_blob:
  assumes "17 + length k + length v < 2 ^ 32"
  shows "Replay_loop (build_blob opc k v ts @ rest) acc
         = Replay_loop rest (acc @ [\<lparr>op = opc, entry_timestamp = ts, key = k, entry_value = v\<rparr>])"
proof -
  define r where "r = build_record opc k v ts"
  have len: "length r = 17 + length k + length v"
    by (simp add: r_def length_build_record)
  have "length r < 2 ^ 32"
    using assms by (simp only: len)
  then have ul: "unat (of_nat (length r) :: u32) = length r"
    by (simp add: unat_of_nat)
  have blob: "build_blob opc k v ts @ rest
              = be32 (of_nat (length r)) @ (r @ be32 (ComputeCRC r) @ rest)"
    by (simp add: build_blob_def Let_def r_def)
  have rd: "ReadBytes (length r) (r @ be32 (ComputeCRC r) @ rest)
            = Some (r, be32 (ComputeCRC r) @ rest)"
    by (simp add: ReadBytes_def)
  have pr: "parse_record r = Some \<lparr>op = opc, entry_timestamp = ts, key = k, entry_value = v\<rparr>"
    unfolding r_def by (rule parse_build_record [OF assms])
  show ?thesis
    unfolding blob
    by (subst Replay_loop.simps) (simp add: ReadU32_be32 ul rd pr)
qed

lemma Replay_loop_nil: "Replay_loop [] acc = acc"
  by (subst Replay_loop.simps) (simp add: ReadU32_def ReadBytes_def)

lemma length_build_blob: "length (build_blob opc k v ts) = 25 + length k + length v"
  by (simp add: build_blob_def Let_def length_build_record)

lemma sys_write_complete:
  "length blob \<le> min n MAX_RW_COUNT \<Longrightarrow> sys_write n blob = blob"
  by (simp add: sys_write_def)

lemma Append_all_append: "Append_all cs f = f @ Append_all cs []"
proof (induction cs arbitrary: f)
  case Nil
  show ?case by simp
next
  case (Cons c cs)
  obtain n opc k v ts where c: "c = (n, opc, k, v, ts)" by (cases c) auto
  have "Append_all (c # cs) f = Append n opc k v ts f @ Append_all cs []"
    using Cons.IH [of "Append n opc k v ts f"] by (simp add: c)
  also have "\<dots> = f @ (Append n opc k v ts [] @ Append_all cs [])"
    by (simp add: Append_def)
  also have "Append n opc k v ts [] @ Append_all cs [] = Append_all (c # cs) []"
    using Cons.IH [of "Append n opc k v ts []"] by (simp add: c)
  finally show ?case .
qed

lemma Replay_loop_Append_all:
  "list_all call_complete cs \<Longrightarrow>
   Replay_loop (Append_all cs []) acc = acc @ map entry_of_call cs"
proof (induction cs arbitrary: acc)
  case Nil
  show ?case by (simp add: Replay_loop_nil)
next
  case (Cons c cs)
  obtain n opc k v ts where c: "c = (n, opc, k, v, ts)" by (cases c) auto
  from Cons.prems have whole: "length (build_blob opc k v ts) \<le> min n MAX_RW_COUNT"
    and rest: "list_all call_complete cs"
    by (simp_all only: c call_complete.simps list.pred_inject)
  have "25 + length k + length v \<le> MAX_RW_COUNT"
    using whole by (simp add: length_build_blob)
  then have fit: "17 + length k + length v < 2 ^ 32"
    by (simp add: MAX_RW_COUNT_def)
  have "Append n opc k v ts [] = build_blob opc k v ts"
    by (simp add: Append_def sys_write_complete [OF whole])
  then have "Append_all (c # cs) [] = build_blob opc k v ts @ Append_all cs []"
    using Append_all_append [of cs "Append n opc k v ts []"] by (simp add: c)
  then show ?case
    using Cons.IH [OF rest] by (simp add: Replay_loop_blob [OF fit] c)
qed

section \<open>Claims about the storage engine and its log\<close>

text \<open>
  C1. For every key, value, timestamp and origin node, \<open>Put\<close> returns true and \<open>Get\<close> then
  yields the new versioned value when the key was absent or the existing entry's timestamp
  was strictly less than the new one; otherwise (existing timestamp greater or equal, ties
  included) it returns false and the map is unchanged.
\<close>

theorem C1_Put_monotonic:
  "((store s k = None \<or> (\<exists>e. store s k = Some e \<and> timestamp e < ts)) \<longrightarrow>
      fst (Put k v ts origin s) \<and>
      Get k (snd (Put k v ts origin s))
        = Some \<lparr>value = v, timestamp = ts, origin_node = origin\<rparr>) \<and>
   ((\<exists>e. store s k = Some e \<and> ts \<le> timestamp e) \<longrightarrow>
      \<not> fst (Put k v ts origin s) \<and> store (snd (Put k v ts origin s)) = store s)"
  by (auto simp: Put_def Get_def Let_def wal_Append_def)

theorem C1_Put_monotonic_witness:
  "fst (Put ''k'' ''new'' 200 ''n1'' (new_engine [])) \<and>
   Get ''k'' (snd (Put ''k'' ''new'' 200 ''n1'' (new_engine [])))
     = Some \<lparr>value = ''new'', timestamp = 200, origin_node = ''n1''\<rparr> \<and>
   \<not> fst (Put ''k'' ''old'' 100 ''n1'' (snd (Put ''k'' ''new'' 200 ''n1'' (new_engine [])))) \<and>
   store (snd (Put ''k'' ''old'' 100 ''n1'' (snd (Put ''k'' ''new'' 200 ''n1'' (new_engine [])))))
     = store (snd (Put ''k'' ''new'' 200 ''n1'' (new_engine [])))"
proof -
  let ?s0 = "new_engine []"
  let ?s1 = "snd (Put ''k'' ''new'' 200 ''n1'' ?s0)"
  have h0: "store ?s0 ''k'' = None \<or> (\<exists>e. store ?s0 ''k'' = Some e \<and> timestamp e < 200)"
    by (simp add: new_engine_def)
  have h1: "\<exists>e. store ?s1 ''k'' = Some e \<and> 100 \<le> timestamp e"
    by (simp add: Put_def Let_def new_engine_def wal_Append_def)
  show ?thesis
    using C1_Put_monotonic [of ?s0 "''k''" 200 "''new''" "''n1''"]
          C1_Put_monotonic [of ?s1 "''k''" 100 "''old''" "''n1''"] h0 h1
    by blast
qed

text \<open>
  C2 (as amended). For every finite sequence of \<open>Append\<close> calls on an initially empty log in
  which the write of every call transfers the whole blob of its record, which takes a blob
  of at most \<open>0x7ffff000\<close> bytes (\<open>25 + |key| + |value| \<le> 0x7ffff000\<close>), a subsequent \<open>Replay\<close>
  returns exactly that sequence of entries, same op, timestamp, key and value, in append
  order.
\<close>

theorem C2_Replay_Append_roundtrip:
  "list_all call_complete cs \<Longrightarrow> Replay (Append_all cs []) = map entry_of_call cs"
  unfolding Replay_def using Replay_loop_Append_all [of cs "[]"] by simp

theorem C2_Replay_Append_roundtrip_witness:
  "list_all call_complete [(100, PUT, ''key1'', ''value1'', 1000),
                           (100, PUT, ''key2'', ''value2'', 2000),
                           (100, DELETE_OP, ''key1'', [], 3000)] \<and>
   Replay (Append_all [(100, PUT, ''key1'', ''value1'', 1000),
                       (100, PUT, ''key2'', ''value2'', 2000),
                       (100, DELETE_OP, ''key1'', [], 3000)] [])
     = [\<lparr>op = PUT, entry_timestamp = 1000, key = ''key1'', entry_value = ''value1''\<rparr>,
        \<lparr>op = PUT, entry_timestamp = 2000, key = ''key2'', entry_value = ''value2''\<rparr>,
        \<lparr>op = DELETE_OP, entry_timestamp = 3000, key = ''key1'', entry_value = []\<rparr>]"
proof -
  have h: "list_all call_complete [(100, PUT, ''key1'', ''value1'', 1000),
                                   (100, PUT, ''key2'', ''value2'', 2000),
                                   (100, DELETE_OP, ''key1'', [], 3000)]"
    by (simp add: length_build_blob MAX_RW_COUNT_def)
  show ?thesis
    using h C2_Replay_Append_roundtrip [OF h] by simp
qed

text \<open>
  The claim as stated, for every sequence, fails on a key of \<open>2^31\<close> bytes, even when the
  system accepts every byte offered: the one write of \<open>Append\<close> transfers \<open>0x7ffff000\<close> bytes
  of the blob, the record on disk is cut short, and \<open>Replay\<close> returns no entry.
\<close>

theorem C2_Replay_Append_counterexample:
  "Replay (Append_all [(2 ^ 32, PUT, replicate (2 ^ 31) CHR ''k'', ''v'', 100)] []) = [] \<and>
   Replay (Append_all [(2 ^ 32, PUT, replicate (2 ^ 31) CHR ''k'', ''v'', 100)] [])
     \<noteq> map entry_of_call [(2 ^ 32, PUT, replicate (2 ^ 31) CHR ''k'', ''v'', 100)]"
proof -
  let ?k = "replicate (2 ^ 31) CHR ''k''"
  define r where "r = build_record PUT ?k ''v'' 100"
  define rest where "rest = r @ be32 (ComputeCRC r)"
  have len: "length r = 2147483666"
    by (simp add: r_def length_build_record)
  then have ul: "unat (of_nat (length r) :: u32) = 2147483666"
    by (simp add: unat_of_nat)
  have lrest: "length rest = 2147483670"
    by (simp add: rest_def len)
  have blob: "build_blob PUT ?k ''v'' 100 = be32 (of_nat (length r)) @ rest"
    by (simp add: build_blob_def Let_def r_def rest_def)
  have "sys_write (2 ^ 32) (build_blob PUT ?k ''v'' 100)
        = be32 (of_nat (length r)) @ take (MAX_RW_COUNT - 4) rest"
    unfolding blob by (simp add: sys_write_def MAX_RW_COUNT_def)
  then have fl: "Append_all [(2 ^ 32, PUT, ?k, ''v'', 100)] []
                   = be32 (of_nat (length r)) @ take (MAX_RW_COUNT - 4) rest"
    by (simp add: Append_def)
  have short: "ReadBytes (unat (of_nat (length r) :: u32)) (take (MAX_RW_COUNT - 4) rest) = None"
    unfolding ul by (simp add: ReadBytes_def lrest MAX_RW_COUNT_def)
  have "Replay_loop (be32 (of_nat (length r)) @ take (MAX_RW_COUNT - 4) rest) [] = []"
    by (subst Replay_loop.simps) (simp add: ReadU32_be32 short)
  then have e: "Replay (Append_all [(2 ^ 32, PUT, ?k, ''v'', 100)] []) = []"
    by (simp only: Replay_def fl)
  then show ?thesis
    by simp
qed

subsection \<open>Sequences of Put and Delete\<close>

lemma Put_store:
  "store (snd (Put k v ts origin s)) =
     (if store s k \<noteq> None \<and> ts \<le> timestamp (the (store s k)) then store s
      else (store s)(k \<mapsto> \<lparr>value = v, timestamp = ts, origin_node = origin\<rparr>))"
  by (simp add: Put_def Let_def wal_Append_def)

lemma Delete_store:
  "store (snd (Delete k ts s)) =
     (if store s k = None \<or> ts \<le> timestamp (the (store s k)) then store s
      else (store s)(k := None))"
  by (simp add: Delete_def Let_def wal_Append_def)

lemma apply_ops_Nil [simp]: "apply_ops [] s = s"
  by (simp add: apply_ops_def)

lemma apply_ops_Cons [simp]: "apply_ops (x # ops) s = apply_ops ops (apply_op x s)"
  by (simp add: apply_ops_def)

lemma apply_ops_append: "apply_ops (xs @ ys) s = apply_ops ys (apply_ops xs s)"
  by (simp add: apply_ops_def)

lemma max_timestamp_ge: "vv \<in> set vs \<Longrightarrow> timestamp vv \<le> max_timestamp vs"
  by (induction vs) (auto simp: max_def)

lemma max_timestamp_attained: "vs \<noteq> [] \<Longrightarrow> \<exists>vv\<in>set vs. timestamp vv = max_timestamp vs"
proof (induction vs)
  case Nil
  then show ?case by simp
next
  case (Cons a vs)
  show ?case
  proof (cases "vs = []")
    case True
    then show ?thesis by (simp add: max_def)
  next
    case False
    with Cons.IH obtain vv where "vv \<in> set vs" "timestamp vv = max_timestamp vs" by auto
    then show ?thesis by (auto simp: max_def)
  qed
qed

text \<open>Once the key holds a value with the greatest timestamp \<open>M\<close>, no later call changes it.\<close>

lemma holds_max_stays:
  assumes "store s k = Some e" "timestamp e = M"
    and "\<forall>d\<in>set (delete_stamps k ops). d < M"
    and "\<forall>vv\<in>set (put_values k ops). timestamp vv \<le> M"
  shows "store (apply_ops ops s) k = Some e"
  using assms
proof (induction ops arbitrary: s)
  case Nil
  then show ?case by simp
next
  case (Cons x ops)
  have "store (apply_op x s) k = Some e"
  proof (cases x)
    case (OpPut k' v ts origin)
    with Cons.prems show ?thesis
      by (cases "k' = k") (auto simp: Put_store)
  next
    case (OpDelete k' ts)
    with Cons.prems show ?thesis
      by (cases "k' = k") (auto simp: Delete_store)
  qed
  moreover have "\<forall>d\<in>set (delete_stamps k ops). d < M"
    using Cons.prems(3) by (cases x) (auto split: if_splits)
  moreover have "\<forall>vv\<in>set (put_values k ops). timestamp vv \<le> M"
    using Cons.prems(4) by (cases x) (auto split: if_splits)
  ultimately show ?case
    using Cons.IH [of "apply_op x s"] Cons.prems(2) by simp
qed

text \<open>
  While the key is absent or holds a timestamp below \<open>M\<close>, the first PUT with timestamp \<open>M\<close>
  is the one that will be stored.
\<close>

lemma below_max_converges:
  assumes "store s k = None \<or> (\<exists>e. store s k = Some e \<and> timestamp e < M)"
    and "\<forall>d\<in>set (delete_stamps k ops). d < M"
    and "\<forall>vv\<in>set (put_values k ops). timestamp vv \<le> M"
    and "\<exists>vv\<in>set (put_values k ops). timestamp vv = M"
  shows "store (apply_ops ops s) k = find (\<lambda>vv. timestamp vv = M) (put_values k ops)"
  using assms
proof (induction ops arbitrary: s)
  case Nil
  then show ?case by simp
next
  case (Cons x ops)
  have dels: "\<forall>d\<in>set (delete_stamps k ops). d < M"
    using Cons.prems(2) by (cases x) (auto split: if_splits)
  have puts: "\<forall>vv\<in>set (put_values k ops). timestamp vv \<le> M"
    using Cons.prems(3) by (cases x) (auto split: if_splits)
  show ?case
  proof (cases x)
    case (OpDelete k' ts)
    have low: "store (apply_op x s) k = None
               \<or> (\<exists>e. store (apply_op x s) k = Some e \<and> timestamp e < M)"
      using Cons.prems(1) OpDelete by (auto simp: Delete_store)
    have ex: "\<exists>vv\<in>set (put_values k ops). timestamp vv = M"
      using Cons.prems(4) OpDelete by simp
    show ?thesis
      using Cons.IH [OF low dels puts ex] OpDelete by simp
  next
    case (OpPut k' v ts origin)
    show ?thesis
    proof (cases "k' = k \<and> ts = M")
      case True
      let ?e = "\<lparr>value = v, timestamp = ts, origin_node = origin\<rparr>"
      have "store (apply_op x s) k = Some ?e"
        using Cons.prems(1) OpPut True by (auto simp: Put_store)
      then have "store (apply_ops ops (apply_op x s)) k = Some ?e"
        using holds_max_stays [OF _ _ dels puts, of "apply_op x s" ?e] True by simp
      then show ?thesis
        using OpPut True by simp
    next
      case False
      have low: "store (apply_op x s) k = None
                 \<or> (\<exists>e. store (apply_op x s) k = Some e \<and> timestamp e < M)"
      proof (cases "k' = k")
        case True
        with False have "ts \<noteq> M" by simp
        moreover have "ts \<le> M" using Cons.prems(3) OpPut True by simp
        ultimately have "ts < M" by simp
        then show ?thesis
          using Cons.prems(1) OpPut True by (auto simp: Put_store)
      next
        case False
        then show ?thesis
          using Cons.prems(1) OpPut by (auto simp: Put_store)
      qed
      have ex: "\<exists>vv\<in>set (put_values k ops). timestamp vv = M"
        using Cons.prems(4) OpPut False by (auto split: if_splits)
      show ?thesis
        using Cons.IH [OF low dels puts ex] OpPut False by auto
    qed
  qed
qed

text \<open>Below a bound \<open>d\<close>: PUTs with smaller timestamps keep the key absent or below \<open>d\<close>.\<close>

lemma stays_below:
  assumes "store s k = None \<or> (\<exists>e. store s k = Some e \<and> timestamp e < d)"
    and "\<forall>vv\<in>set (put_values k ops). timestamp vv < d"
  shows "store (apply_ops ops s) k = None
         \<or> (\<exists>e. store (apply_ops ops s) k = Some e \<and> timestamp e < d)"
  using assms
proof (induction ops arbitrary: s)
  case Nil
  then show ?case by simp
next
  case (Cons x ops)
  have "store (apply_op x s) k = None
        \<or> (\<exists>e. store (apply_op x s) k = Some e \<and> timestamp e < d)"
    using Cons.prems by (cases x) (auto simp: Put_store Delete_store split: if_splits)
  moreover have "\<forall>vv\<in>set (put_values k ops). timestamp vv < d"
    using Cons.prems(2) by (cases x) (auto split: if_splits)
  ultimately show ?case
    using Cons.IH [of "apply_op x s"] by simp
qed

lemma stays_absent:
  assumes "store s k = None" "put_values k ops = []"
  shows "store (apply_ops ops s) k = None"
  using assms
proof (induction ops arbitrary: s)
  case Nil
  then show ?case by simp
next
  case (Cons x ops)
  have "store (apply_op x s) k = None"
    using Cons.prems by (cases x) (auto simp: Put_store Delete_store split: if_splits)
  moreover have "put_values k ops = []"
    using Cons.prems(2) by (cases x) (auto split: if_splits)
  ultimately show ?case
    using Cons.IH [of "apply_op x s"] by simp
qed

text \<open>
  C3 (as amended). For every key and every finite sequence of Put and Delete calls on an
  engine where the key is absent, applied in any order: if the greatest PUT timestamp
  exceeds every DELETE timestamp, the final value of the key is the PUT with that greatest
  timestamp (the first one applied, on a tie); and if a DELETE whose timestamp is greater
  than that of every PUT before it is applied after every PUT of the key, the key is absent
  at the end.
\<close>

theorem C3_last_writer_wins:
  assumes "store s k = None"
  shows "(put_values k ops \<noteq> [] \<and>
          (\<forall>d\<in>set (delete_stamps k ops). d < max_timestamp (put_values k ops)) \<longrightarrow>
            Get k (apply_ops ops s)
              = find (\<lambda>vv. timestamp vv = max_timestamp (put_values k ops)) (put_values k ops) \<and>
            Get k (apply_ops ops s) \<noteq> None) \<and>
         (ops = ops1 @ OpDelete k d # ops2 \<and> put_values k ops2 = [] \<and>
          (\<forall>vv\<in>set (put_values k ops1). timestamp vv < d) \<longrightarrow>
            Get k (apply_ops ops s) = None)"
proof (intro conjI impI)
  assume a: "put_values k ops \<noteq> [] \<and>
             (\<forall>d\<in>set (delete_stamps k ops). d < max_timestamp (put_values k ops))"
  let ?M = "max_timestamp (put_values k ops)"
  have ex: "\<exists>vv\<in>set (put_values k ops). timestamp vv = ?M"
    using a max_timestamp_attained by blast
  have le: "\<forall>vv\<in>set (put_values k ops). timestamp vv \<le> ?M"
    using max_timestamp_ge by blast
  show eq: "Get k (apply_ops ops s) = find (\<lambda>vv. timestamp vv = ?M) (put_values k ops)"
    unfolding Get_def
    using below_max_converges [of s k ?M ops] assms a le ex by blast
  show "Get k (apply_ops ops s) \<noteq> None"
    unfolding eq using ex by (auto simp: find_None_iff)
next
  assume b: "ops = ops1 @ OpDelete k d # ops2 \<and> put_values k ops2 = [] \<and>
             (\<forall>vv\<in>set (put_values k ops1). timestamp vv < d)"
  let ?s1 = "apply_ops ops1 s"
  have "store ?s1 k = None \<or> (\<exists>e. store ?s1 k = Some e \<and> timestamp e < d)"
    using stays_below [of s k d ops1] assms b by blast
  then have "store (apply_op (OpDelete k d) ?s1) k = None"
    by (auto simp: Delete_store)
  then have "store (apply_ops ops2 (apply_op (OpDelete k d) ?s1)) k = None"
    using stays_absent b by blast
  then show "Get k (apply_ops ops s) = None"
    using b by (simp add: Get_def apply_ops_append)
qed

theorem C3_last_writer_wins_witness:
  "Get ''k'' (apply_ops [OpPut ''k'' ''b'' 200 ''n2'', OpDelete ''k'' 150, OpPut ''k'' ''a'' 100 ''n1'',
                         OpPut ''k'' ''c'' 200 ''n3''] (new_engine []))
     = Some \<lparr>value = ''b'', timestamp = 200, origin_node = ''n2''\<rparr> \<and>
   Get ''k1'' (apply_ops ([OpPut ''k1'' ''v1'' 100 ''n1'', OpPut ''k2'' ''v2'' 200 ''n1'']
                          @ OpDelete ''k1'' 300 # [OpDelete ''k1'' 50]) (new_engine [])) = None"
proof -
  let ?opsA = "[OpPut ''k'' ''b'' 200 ''n2'', OpDelete ''k'' 150, OpPut ''k'' ''a'' 100 ''n1'',
                OpPut ''k'' ''c'' 200 ''n3'']"
  let ?ops1 = "[OpPut ''k1'' ''v1'' 100 ''n1'', OpPut ''k2'' ''v2'' 200 ''n1'']"
  let ?ops2 = "[OpDelete ''k1'' 50]"
  have h0: "store (new_engine []) ''k'' = None" "store (new_engine []) ''k1'' = None"
    by (simp_all add: new_engine_def)
  have hA: "put_values ''k'' ?opsA \<noteq> [] \<and>
            (\<forall>d\<in>set (delete_stamps ''k'' ?opsA). d < max_timestamp (put_values ''k'' ?opsA))"
    by simp
  have hB: "?ops1 @ OpDelete ''k1'' 300 # ?ops2 = ?ops1 @ OpDelete ''k1'' 300 # ?ops2 \<and>
            put_values ''k1'' ?ops2 = [] \<and>
            (\<forall>vv\<in>set (put_values ''k1'' ?ops1). timestamp vv < 300)"
    by simp
  have A: "Get ''k'' (apply_ops ?opsA (new_engine []))
           = find (\<lambda>vv. timestamp vv = max_timestamp (put_values ''k'' ?opsA)) (put_values ''k'' ?opsA)"
    using C3_last_writer_wins [OF h0(1), of ?opsA "[]" 0 "[]"] hA by blast
  have B: "Get ''k1'' (apply_ops (?ops1 @ OpDelete ''k1'' 300 # ?ops2) (new_engine [])) = None"
    using C3_last_writer_wins [OF h0(2), of "?ops1 @ OpDelete ''k1'' 300 # ?ops2" ?ops1 300 ?ops2] hB
    by blast
  show ?thesis
    using A B by simp
qed

text \<open>
  The claim as stated fails when a DELETE is applied before the PUT: the engine keeps no
  tombstone, so the DELETE with timestamp 300 is a no-op on the absent key and the later
  PUT with timestamp 100 is stored.
\<close>

theorem C3_last_writer_wins_counterexample:
  "300 \<in> set (delete_stamps ''k'' [OpDelete ''k'' 300, OpPut ''k'' ''v'' 100 ''n1'']) \<and>
   max_timestamp (put_values ''k'' [OpDelete ''k'' 300, OpPut ''k'' ''v'' 100 ''n1'']) < 300 \<and>
   Get ''k'' (apply_ops [OpDelete ''k'' 300, OpPut ''k'' ''v'' 100 ''n1''] (new_engine []))
     = Some \<lparr>value = ''v'', timestamp = 100, origin_node = ''n1''\<rparr>"
  by (simp add: Get_def Put_store Delete_store new_engine_def)

subsection \<open>Recovery\<close>

lemma BulkPut_wal: "wal (BulkPut entries s) = wal s"
  by (induction entries s rule: BulkPut.induct) simp_all

lemma wal_Put: "wal (snd (Put k v ts origin s)) = Append (accepts s 0) PUT k v ts (wal s)"
  by (simp add: Put_def Let_def wal_Append_def)

lemma accepts_Put: "accepts (snd (Put k v ts origin s)) = (\<lambda>i. accepts s (Suc i))"
  by (simp add: Put_def Let_def wal_Append_def)

lemma wal_Delete: "wal (snd (Delete k ts s)) = Append (accepts s 0) DELETE_OP k [] ts (wal s)"
  by (simp add: Delete_def Let_def wal_Append_def)

text \<open>
  C6. During recovery a DELETE entry should remove the key only when the key is present with
  a strictly smaller timestamp, an equal timestamp being stale. The code compares with
  \<open>\<le>\<close>: the log written by \<open>Put("k", "v", 100, "n1")\<close> and the stale \<open>Delete("k", 100)\<close>, after
  which the live engine still holds the key, is recovered to a map without the key.
\<close>

theorem C6_Recover_delete_equal_timestamp:
  "Get ''k'' (snd (Delete ''k'' 100 (snd (Put ''k'' ''v'' 100 ''n1'' (new_engine [])))))
     = Some \<lparr>value = ''v'', timestamp = 100, origin_node = ''n1''\<rparr> \<and>
   Get ''k'' (Recover (new_engine
       (wal (snd (Delete ''k'' 100 (snd (Put ''k'' ''v'' 100 ''n1'' (new_engine []))))))))
     = None \<and>
   Recover_entry \<lparr>op = DELETE_OP, entry_timestamp = 100, key = ''k'', entry_value = []\<rparr>
       [''k'' \<mapsto> \<lparr>value = ''v'', timestamp = 100, origin_node = []\<rparr>] ''k'' = None"
proof -
  let ?cs = "[(MAX_RW_COUNT, PUT, ''k'', ''v'', 100), (MAX_RW_COUNT, DELETE_OP, ''k'', [], 100)]"
  have w: "wal (snd (Delete ''k'' 100 (snd (Put ''k'' ''v'' 100 ''n1'' (new_engine [])))))
           = Append_all ?cs []"
    by (simp add: wal_Put wal_Delete accepts_Put new_engine_def)
  have "list_all call_complete ?cs"
    by (simp add: length_build_blob MAX_RW_COUNT_def)
  then have r: "Replay (Append_all ?cs []) = map entry_of_call ?cs"
    unfolding Replay_def using Replay_loop_Append_all [of ?cs "[]"] by simp
  have live: "Get ''k'' (snd (Delete ''k'' 100 (snd (Put ''k'' ''v'' 100 ''n1'' (new_engine [])))))
     = Some \<lparr>value = ''v'', timestamp = 100, origin_node = ''n1''\<rparr>"
    by (simp add: Get_def Put_store Delete_store new_engine_def)
  have w2: "wal (new_engine (Append_all ?cs [])) = Append_all ?cs []"
    by (simp add: new_engine_def del: Append_all.simps)
  have rec: "Get ''k'' (Recover (new_engine (Append_all ?cs []))) = None"
    unfolding Recover_def Get_def w2 r
    by (simp add: new_engine_def Recover_entry_def PUT_def DELETE_OP_def INTERNAL_PUT_def
                  INTERNAL_DELETE_def)
  have step: "Recover_entry \<lparr>op = DELETE_OP, entry_timestamp = 100, key = ''k'', entry_value = []\<rparr>
       [''k'' \<mapsto> \<lparr>value = ''v'', timestamp = 100, origin_node = []\<rparr>] ''k'' = None"
    by (simp add: Recover_entry_def PUT_def DELETE_OP_def INTERNAL_PUT_def)
  show ?thesis
    using live rec step by (simp only: w)
qed

text \<open>
  C7. \<open>BulkPut\<close> should append a log record for each entry, so that what it applies to the map
  is reproduced by a later \<open>Recover\<close>. The code never writes the log in \<open>BulkPut\<close>: the log is
  left as it was for every list of entries, and an entry bulk-loaded into a fresh engine is
  gone after recovery from that engine's log.
\<close>

theorem C7_BulkPut_not_logged:
  "wal (BulkPut entries s) = wal s \<and>
   Get ''k'' (BulkPut [(''k'', \<lparr>value = ''v'', timestamp = 1, origin_node = ''n1''\<rparr>)] (new_engine []))
     = Some \<lparr>value = ''v'', timestamp = 1, origin_node = ''n1''\<rparr> \<and>
   Get ''k'' (Recover (new_engine
       (wal (BulkPut [(''k'', \<lparr>value = ''v'', timestamp = 1, origin_node = ''n1''\<rparr>)]
                     (new_engine [])))))
     = None"
proof -
  have "Replay [] = []"
    by (simp add: Replay_def Replay_loop_nil)
  then have "Get ''k'' (Recover (new_engine [])) = None"
    by (simp add: Recover_def Get_def new_engine_def)
  then show ?thesis
    by (simp add: BulkPut_wal) (simp add: Get_def new_engine_def)
qed

section \<open>Consistent hash ring: the replica walk\<close>

lemma mod_shift_inj_le:
  assumes "(a + j) mod n = (a + j') mod (n::nat)" "j \<le> j'" "j' < n"
  shows "j = j'"
proof -
  have le: "a + j \<le> a + j'"
    using assms(2) by simp
  have "(a + j') mod n = (a + j) mod n"
    using assms(1) by simp
  then have "n dvd (a + j') - (a + j)"
    using mod_eq_dvd_iff_nat [OF le] by blast
  then have "n dvd j' - j" by simp
  moreover have "j' - j < n" using assms(3) by simp
  ultimately have "j' - j = 0"
    using dvd_imp_le [of n "j' - j"] by auto
  then show ?thesis using assms(2) by simp
qed

lemma mod_shift_inj:
  assumes "(a + j) mod n = (a + j') mod (n::nat)" "j < n" "j' < n"
  shows "j = j'"
proof (cases "j \<le> j'")
  case True
  then show ?thesis using mod_shift_inj_le [OF assms(1) _ assms(3)] by simp
next
  case False
  then have "j' \<le> j" by simp
  then show ?thesis using mod_shift_inj_le [OF assms(1) [symmetric] _ assms(2)] by simp
qed

lemma mod_shift_image:
  assumes "0 < (n::nat)"
  shows "(\<lambda>j. (a + j) mod n) ` {..<n} = {..<n}"
proof (rule card_subset_eq)
  show "finite {..<n}" by simp
  show "(\<lambda>j. (a + j) mod n) ` {..<n} \<subseteq> {..<n}"
    using assms by auto
  have "inj_on (\<lambda>j. (a + j) mod n) {..<n}"
    by (rule inj_onI) (auto dest: mod_shift_inj)
  then show "card ((\<lambda>j. (a + j) mod n) ` {..<n}) = card {..<n}"
    by (rule card_image)
qed

lemma rem_owners_all:
  assumes "es \<noteq> []"
  shows "rem_owners es it 0 = snd ` set es"
proof -
  have "rem_owners es it 0 = (\<lambda>i. snd (es ! i)) ` ((\<lambda>j. (it + j) mod length es) ` {..<length es})"
    by (simp add: rem_owners_def image_image)
  also have "\<dots> = (\<lambda>i. snd (es ! i)) ` {..<length es}"
    using assms by (simp add: mod_shift_image)
  also have "\<dots> = snd ` set es"
    by (auto simp: set_conv_nth image_iff) 
  finally show ?thesis .
qed

lemma rem_owners_step:
  assumes "steps < length es" "it \<le> length es"
  shows "rem_owners es it steps
         = insert (snd (es ! (if it = length es then 0 else it)))
                  (rem_owners es ((if it = length es then 0 else it) + 1) (steps + 1))"
proof -
  define i where "i = (if it = length es then 0 else it)"
  have n0: "0 < length es" using assms(1) by auto
  have i: "i < length es" "it mod length es = i"
    using assms n0 by (auto simp: i_def)
  have shift: "Suc (it + j) mod length es = Suc (i + j) mod length es" for j
  proof -
    have "(it + Suc j) mod length es = (it mod length es + Suc j) mod length es"
      by (rule mod_add_left_eq [symmetric])
    then show ?thesis by (simp add: i(2))
  qed
  have "length es - steps = Suc (length es - (steps + 1))"
    using assms(1) by simp
  then have "{..<length es - steps} = insert 0 (Suc ` {..<length es - (steps + 1)})"
    by (simp only: lessThan_Suc_eq_insert_0)
  then have "rem_owners es it steps
             = insert (snd (es ! (it mod length es)))
                 ((\<lambda>j. snd (es ! ((it + Suc j) mod length es))) ` {..<length es - (steps + 1)})"
    by (simp add: rem_owners_def image_image)
  then show ?thesis
    unfolding i_def [symmetric] by (simp add: i(2) shift rem_owners_def)
qed

lemma rem_owners_done: "length es \<le> steps \<Longrightarrow> rem_owners es it steps = {}"
  by (simp add: rem_owners_def)

lemma finite_rem_owners [simp]: "finite (rem_owners es it steps)"
  by (simp add: rem_owners_def)

lemma GetNodes_loop_props:
  assumes "seen = set result" "distinct result" "it \<le> length es"
  shows "distinct (GetNodes_loop es count it result seen steps) \<and>
         set (GetNodes_loop es count it result seen steps) \<subseteq> set result \<union> rem_owners es it steps \<and>
         int (length (GetNodes_loop es count it result seen steps))
           = (if count \<le> int (length result) then int (length result)
              else min count (int (card (set result \<union> rem_owners es it steps))))"
  using assms
proof (induction es count it result seen steps rule: GetNodes_loop.induct)
  case (1 es count it result seen steps)
  let ?R = "GetNodes_loop es count it result seen steps"
  show ?case
  proof (cases "int (length result) < count \<and> steps < length es")
    case False
    have R: "?R = result"
      using False by (subst GetNodes_loop.simps) auto
    show ?thesis
    proof (cases "count \<le> int (length result)")
      case True
      then show ?thesis using R "1.prems" by simp
    next
      case c: False
      with False have "length es \<le> steps" by simp
      then have "rem_owners es it steps = {}" by (rule rem_owners_done)
      then show ?thesis
        using R "1.prems" c by (simp add: distinct_card)
    qed
  next
    case True
    define i where "i = (if it = length es then 0 else it)"
    define n where "n = snd (es ! i)"
    have rem: "rem_owners es it steps = insert n (rem_owners es (i + 1) (steps + 1))"
      using rem_owners_step [of steps es it] True "1.prems"(3) by (simp add: i_def n_def)
    have i_le: "i + 1 \<le> length es"
      using True "1.prems"(3) by (auto simp: i_def)
    have lt: "int (length result) < count" using True by simp
    show ?thesis
    proof (cases "n \<in> seen")
      case False
      let ?res' = "result @ [n]"
      have R: "?R = GetNodes_loop es count (i + 1) ?res' (insert n seen) (steps + 1)"
        using True False by (subst GetNodes_loop.simps) (simp add: i_def n_def Let_def)
      have fresh: "n \<notin> set result" using False "1.prems"(1) by simp
      have IH: "distinct ?R \<and> set ?R \<subseteq> set ?res' \<union> rem_owners es (i + 1) (steps + 1) \<and>
         int (length ?R) = (if count \<le> int (length ?res') then int (length ?res')
              else min count (int (card (set ?res' \<union> rem_owners es (i + 1) (steps + 1)))))"
        unfolding R
        using "1.IH"(1) [OF True i_def n_def False] "1.prems" fresh i_le by simp
      have sets: "set ?res' \<union> rem_owners es (i + 1) (steps + 1) = set result \<union> rem_owners es it steps"
        by (simp add: rem)
      have len: "int (length ?R) = min count (int (card (set result \<union> rem_owners es it steps)))"
      proof (cases "count \<le> int (length ?res')")
        case True
        then have c: "count = int (length ?res')" using lt by simp
        have "card (set ?res') \<le> card (set result \<union> rem_owners es it steps)"
          unfolding sets [symmetric] by (rule card_mono) auto
        moreover have "card (set ?res') = length ?res'"
          using "1.prems"(2) fresh by (simp add: distinct_card)
        ultimately show ?thesis
          using IH True c by simp
      next
        case False
        then show ?thesis using IH sets by simp
      qed
      show ?thesis
        using IH len lt sets by auto
    next
      case seen: True
      have R: "?R = GetNodes_loop es count (i + 1) result seen (steps + 1)"
        using True seen by (subst GetNodes_loop.simps) (simp add: i_def n_def Let_def)
      have IH: "distinct ?R \<and> set ?R \<subseteq> set result \<union> rem_owners es (i + 1) (steps + 1) \<and>
         int (length ?R) = (if count \<le> int (length result) then int (length result)
              else min count (int (card (set result \<union> rem_owners es (i + 1) (steps + 1)))))"
        unfolding R
        using "1.IH"(2) [OF True i_def n_def] seen "1.prems" i_le by simp
      have sets: "set result \<union> rem_owners es (i + 1) (steps + 1) = set result \<union> rem_owners es it steps"
        using seen "1.prems"(1) by (auto simp: rem)
      show ?thesis
        using IH lt sets by auto
    qed
  qed
qed

lemma upper_bound_le: "upper_bound h es \<le> length es"
  by (simp add: upper_bound_def length_takeWhile_le)

lemma GetNodes_props:
  assumes "ring r \<noteq> []"
  shows "\<exists>res. GetNodes r k cnt = Inr res \<and> distinct res \<and> set res \<subseteq> snd ` set (ring r) \<and>
           int (length res)
             = (if min cnt (int (card (physical_nodes r))) \<le> 0 then 0
                else min (min cnt (int (card (physical_nodes r))))
                         (int (card (snd ` set (ring r)))))"
proof -
  define c where "c = (if cnt > int (card (physical_nodes r)) then int (card (physical_nodes r)) else cnt)"
  define it where "it = upper_bound (Hash k) (ring r)"
  define res where "res = GetNodes_loop (ring r) c it [] {} 0"
  have c: "c = min cnt (int (card (physical_nodes r)))"
    by (simp add: c_def min_def)
  have G: "GetNodes r k cnt = Inr res"
    using assms by (simp add: GetNodes_def Let_def res_def c_def it_def)
  have P: "distinct res \<and> set res \<subseteq> set [] \<union> rem_owners (ring r) it 0 \<and>
           int (length res) = (if c \<le> int (length ([] :: string list)) then int (length ([] :: string list))
                               else min c (int (card (set [] \<union> rem_owners (ring r) it 0))))"
    unfolding res_def
    by (rule GetNodes_loop_props) (simp_all add: it_def upper_bound_le)
  have "rem_owners (ring r) it 0 = snd ` set (ring r)"
    using assms by (rule rem_owners_all)
  with P have "distinct res \<and> set res \<subseteq> snd ` set (ring r) \<and>
           int (length res) = (if c \<le> 0 then 0 else min c (int (card (snd ` set (ring r)))))"
    by simp
  then show ?thesis
    using G unfolding c by blast
qed

text \<open>Every position of a ring built by adding one node to an empty ring is owned by it.\<close>

lemma map_assign_nonempty: "map_assign h n es \<noteq> []"
  by (induction h n es rule: map_assign.induct) auto

lemma map_assign_owners: "snd ` set (map_assign h n es) \<subseteq> insert n (snd ` set es)"
  by (induction h n es rule: map_assign.induct) auto

lemma map_assign_owner_in: "n \<in> snd ` set (map_assign h n es)"
  by (induction h n es rule: map_assign.induct) auto

lemma foldl_map_assign_owners:
  "snd ` set (foldl (\<lambda>m i. map_assign (f i) n m) es xs) \<subseteq> insert n (snd ` set es)"
proof (induction xs arbitrary: es)
  case Nil
  show ?case by auto
next
  case (Cons x xs)
  show ?case
    using Cons.IH [of "map_assign (f x) n es"] map_assign_owners [of "f x" n es] by auto
qed

lemma foldl_map_assign_nonempty:
  "es \<noteq> [] \<Longrightarrow> foldl (\<lambda>m i. map_assign (f i) n m) es xs \<noteq> []"
  by (induction xs arbitrary: es) (simp_all add: map_assign_nonempty)

lemma AddNode_new_ring:
  assumes "1 \<le> v"
  shows "ring (AddNode n (new_ring v)) \<noteq> []"
    and "snd ` set (ring (AddNode n (new_ring v))) = {n}"
    and "physical_nodes (AddNode n (new_ring v)) = {n}"
proof -
  have "0 < nat v"
    using assms by simp
  then have up: "[0..<nat v] = 0 # [Suc 0..<nat v]"
    by (rule upt_conv_Cons)
  let ?f = "\<lambda>i. Hash (VnodeKey n (int i))"
  have "ring (AddNode n (new_ring v)) = foldl (\<lambda>m i. map_assign (?f i) n m) [] [0..<nat v]"
    by (simp add: AddNode_def new_ring_def)
  then have R: "ring (AddNode n (new_ring v))
           = foldl (\<lambda>m i. map_assign (?f i) n m) (map_assign (?f 0) n []) [Suc 0..<nat v]"
    by (simp only: up foldl_Cons)
  show ne: "ring (AddNode n (new_ring v)) \<noteq> []"
    unfolding R by (rule foldl_map_assign_nonempty) (rule map_assign_nonempty)
  have "snd ` set (map_assign (?f 0) n []) \<subseteq> {n}"
    by simp
  then have sub: "snd ` set (ring (AddNode n (new_ring v))) \<subseteq> {n}"
    unfolding R using foldl_map_assign_owners [of ?f n "map_assign (?f 0) n []" "[Suc 0..<nat v]"]
    by blast
  obtain e es where "ring (AddNode n (new_ring v)) = e # es"
    using ne by (cases "ring (AddNode n (new_ring v))") auto
  then have "snd e \<in> snd ` set (ring (AddNode n (new_ring v)))"
    by simp
  then show "snd ` set (ring (AddNode n (new_ring v))) = {n}"
    using sub by blast
  show "physical_nodes (AddNode n (new_ring v)) = {n}"
    by (simp add: AddNode_def new_ring_def)
qed

lemma GetNodes_single_owner:
  assumes "ring r \<noteq> []" "snd ` set (ring r) = {n}" "1 \<le> cnt" "1 \<le> card (physical_nodes r)"
  shows "GetNodes r k cnt = Inr [n]"
proof -
  obtain res where res: "GetNodes r k cnt = Inr res" "distinct res" "set res \<subseteq> snd ` set (ring r)"
    "int (length res) = (if min cnt (int (card (physical_nodes r))) \<le> 0 then 0
                else min (min cnt (int (card (physical_nodes r))))
                         (int (card (snd ` set (ring r)))))"
    using GetNodes_props [OF assms(1), of k cnt] by blast
  have "length res = 1"
    using res(4) assms(2,3,4) by (simp add: min_def split: if_splits)
  then obtain x where x: "res = [x]"
    by (cases res) auto
  then have "x = n"
    using res(3) assms(2) by simp
  then show ?thesis
    using res(1) x by simp
qed

lemma GetNodes_single_node:
  assumes "1 \<le> v" "1 \<le> cnt"
  shows "GetNodes (AddNode n (new_ring v)) k cnt = Inr [n]"
proof (rule GetNodes_single_owner)
  show "ring (AddNode n (new_ring v)) \<noteq> []"
    by (rule AddNode_new_ring(1) [OF assms(1)])
  show "snd ` set (ring (AddNode n (new_ring v))) = {n}"
    by (rule AddNode_new_ring(2) [OF assms(1)])
  show "1 \<le> cnt" by (rule assms(2))
  show "1 \<le> card (physical_nodes (AddNode n (new_ring v)))"
    by (simp add: AddNode_new_ring(3) [OF assms(1)])
qed


subsection \<open>Rings built by the class\<close>

lemma set_map_assign: "set (map_assign h n es) \<subseteq> insert (h, n) (set es)"
  by (induction h n es rule: map_assign.induct) auto

lemma set_foldl_map_assign:
  "set (foldl (\<lambda>m i. map_assign (f i) n m) es xs) \<subseteq> set es \<union> (\<lambda>i. (f i, n)) ` set xs"
proof (induction xs arbitrary: es)
  case Nil
  show ?case by simp
next
  case (Cons x xs)
  show ?case
    using Cons.IH [of "map_assign (f x) n es"] set_map_assign [of "f x" n es] by auto
qed

lemma set_foldl_map_erase:
  "set (foldl (\<lambda>m i. map_erase (f i) m) es xs) = {e \<in> set es. fst e \<notin> f ` set xs}"
proof (induction xs arbitrary: es)
  case Nil
  show ?case by simp
next
  case (Cons x xs)
  show ?case
    unfolding foldl_Cons Cons.IH by (auto simp: map_erase_def)
qed

lemma ring_inv_new_ring: "ring_inv (new_ring v)"
  by (simp add: ring_inv_def new_ring_def)

lemma ring_inv_AddNode:
  assumes "ring_inv r"
  shows "ring_inv (AddNode n r)"
proof (cases "n \<in> physical_nodes r")
  case True
  with assms show ?thesis by (simp add: AddNode_def)
next
  case False
  let ?f = "\<lambda>i. Hash (VnodeKey n (int i))"
  let ?xs = "[0..<nat (virtual_nodes r)]"
  have R: "ring (AddNode n r) = foldl (\<lambda>m i. map_assign (?f i) n m) (ring r) ?xs"
    and P: "physical_nodes (AddNode n r) = insert n (physical_nodes r)"
    and V: "virtual_nodes (AddNode n r) = virtual_nodes r"
    using False by (simp_all add: AddNode_def)
  have fin: "finite (physical_nodes (AddNode n r))"
    using assms by (simp add: P ring_inv_def)
  have "snd e \<in> physical_nodes (AddNode n r) \<and>
        (\<exists>i<nat (virtual_nodes (AddNode n r)). fst e = Hash (VnodeKey (snd e) (int i)))"
    if e: "e \<in> set (ring (AddNode n r))" for e
  proof -
    from e have "e \<in> set (ring r) \<or> e \<in> (\<lambda>i. (?f i, n)) ` set ?xs"
      unfolding R using set_foldl_map_assign [of ?f n "ring r" ?xs] by blast
    then show ?thesis
    proof
      assume "e \<in> set (ring r)"
      then show ?thesis
        using assms by (simp add: ring_inv_def P V)
    next
      assume "e \<in> (\<lambda>i. (?f i, n)) ` set ?xs"
      then obtain i where "i < nat (virtual_nodes r)" "e = (?f i, n)"
        by auto
      then show ?thesis
        by (auto simp: P V)
    qed
  qed
  then show ?thesis
    using fin by (simp add: ring_inv_def)
qed

lemma ring_inv_RemoveNode:
  assumes "ring_inv r"
  shows "ring_inv (RemoveNode n r)"
proof (cases "n \<notin> physical_nodes r")
  case True
  with assms show ?thesis by (simp add: RemoveNode_def)
next
  case False
  let ?f = "\<lambda>i. Hash (VnodeKey n (int i))"
  let ?xs = "[0..<nat (virtual_nodes r)]"
  have R: "ring (RemoveNode n r) = foldl (\<lambda>m i. map_erase (?f i) m) (ring r) ?xs"
    and P: "physical_nodes (RemoveNode n r) = physical_nodes r - {n}"
    and V: "virtual_nodes (RemoveNode n r) = virtual_nodes r"
    using False by (simp_all add: RemoveNode_def)
  have fin: "finite (physical_nodes (RemoveNode n r))"
    using assms by (simp add: P ring_inv_def)
  have "snd e \<in> physical_nodes (RemoveNode n r) \<and>
        (\<exists>i<nat (virtual_nodes (RemoveNode n r)). fst e = Hash (VnodeKey (snd e) (int i)))"
    if e: "e \<in> set (ring (RemoveNode n r))" for e
  proof -
    from e have old: "e \<in> set (ring r)" and kept: "fst e \<notin> ?f ` set ?xs"
      unfolding R set_foldl_map_erase by simp_all
    from old assms obtain i where i: "snd e \<in> physical_nodes r" "i < nat (virtual_nodes r)"
      "fst e = Hash (VnodeKey (snd e) (int i))"
      by (auto simp: ring_inv_def)
    have "snd e \<noteq> n"
    proof
      assume "snd e = n"
      then have "fst e \<in> ?f ` set ?xs"
        using i(2,3) by auto
      with kept show False by simp
    qed
    then show ?thesis
      using i by (auto simp: P V)
  qed
  then show ?thesis
    using fin by (simp add: ring_inv_def)
qed

lemma ring_built_inv: "ring_built r \<Longrightarrow> ring_inv r"
  by (induction rule: ring_built.induct)
     (simp_all add: ring_inv_new_ring ring_inv_AddNode ring_inv_RemoveNode)

lemma ring_built_owners:
  assumes "ring_built r"
  shows "snd ` set (ring r) \<subseteq> physical_nodes r" and "finite (physical_nodes r)"
  using ring_built_inv [OF assms] by (auto simp: ring_inv_def)

text \<open>
  C9 (as amended). For every \<open>N \<ge> 1\<close> and key, on a ring built by the class that holds at
  least one position, \<open>GetNodes\<close> returns a duplicate-free list of physical node identifiers
  whose length equals the lesser of \<open>N\<close> and the number of physical nodes that own a ring
  position; it equals \<open>min(N, number of physical nodes)\<close> whenever every physical node owns a
  ring position.
\<close>

theorem C9_GetNodes_distinct_length:
  assumes "1 \<le> cnt" and "ring_built r" and "ring r \<noteq> []"
  shows "\<exists>res. GetNodes r k cnt = Inr res \<and> distinct res \<and> set res \<subseteq> physical_nodes r \<and>
           set res \<subseteq> snd ` set (ring r) \<and>
           int (length res) = min cnt (int (card (snd ` set (ring r)))) \<and>
           (snd ` set (ring r) = physical_nodes r \<longrightarrow>
              int (length res) = min cnt (int (card (physical_nodes r))))"
proof -
  let ?O = "snd ` set (ring r)"
  let ?P = "physical_nodes r"
  obtain res where res: "GetNodes r k cnt = Inr res" "distinct res" "set res \<subseteq> ?O"
    "int (length res) = (if min cnt (int (card ?P)) \<le> 0 then 0
                         else min (min cnt (int (card ?P))) (int (card ?O)))"
    using GetNodes_props [OF assms(3), of k cnt] by blast
  have sub: "?O \<subseteq> ?P" and fin: "finite ?P"
    using ring_built_owners [OF assms(2)] by simp_all
  have le: "card ?O \<le> card ?P"
    by (rule card_mono [OF fin sub])
  obtain e es where "ring r = e # es"
    using assms(3) by (cases "ring r") auto
  then have "snd e \<in> ?O"
    by simp
  then have "0 < card ?O"
    using finite_subset [OF sub fin] by (auto simp: card_gt_0_iff)
  then have len: "int (length res) = min cnt (int (card ?O))"
    using res(4) le assms(1) by (simp add: min_def)
  show ?thesis
    using res(1-3) sub len by auto
qed

lemma Hash_n16724: "Hash ''n16724#0'' = 4158874788"
  by (simp add: Hash_def MurmurHash3_x86_32_def string_bytes_def murmur_tail_def murmur_c1_def
                murmur_c2_def rotl32_def fmix32_def Let_def)

lemma Hash_n100940: "Hash ''n100940#0'' = 4158874788"
  by (simp add: Hash_def MurmurHash3_x86_32_def string_bytes_def murmur_tail_def murmur_c1_def
                murmur_c2_def rotl32_def fmix32_def Let_def)

lemma Hash_A: "Hash ''A#0'' = 3945461583" "Hash ''A#1'' = 1282568964"
  by (simp_all add: Hash_def MurmurHash3_x86_32_def string_bytes_def murmur_tail_def
                    murmur_c1_def murmur_c2_def rotl32_def fmix32_def Let_def)

lemma Hash_B: "Hash ''B#0'' = 991333856" "Hash ''B#1'' = 2240555685"
  by (simp_all add: Hash_def MurmurHash3_x86_32_def string_bytes_def murmur_tail_def
                    murmur_c1_def murmur_c2_def rotl32_def fmix32_def Let_def)

lemma Hash_C: "Hash ''C#0'' = 2938563154" "Hash ''C#1'' = 3365151463"
  by (simp_all add: Hash_def MurmurHash3_x86_32_def string_bytes_def murmur_tail_def
                    murmur_c1_def murmur_c2_def rotl32_def fmix32_def Let_def)

lemma Hash_k: "Hash ''k'' = 3485312465"
  by (simp add: Hash_def MurmurHash3_x86_32_def string_bytes_def murmur_tail_def murmur_c1_def
                murmur_c2_def rotl32_def fmix32_def Let_def)

lemma collision_ring:
  "ring (AddNode ''n100940'' (AddNode ''n16724'' (new_ring 1))) = [(4158874788, ''n100940'')]"
  "physical_nodes (AddNode ''n100940'' (AddNode ''n16724'' (new_ring 1))) = {''n100940'', ''n16724''}"
  by (simp_all add: AddNode_def new_ring_def VnodeKey_def to_string_def decimal.simps
                    digit_char_def Hash_n16724 Hash_n100940)

lemma ring_ABC_2_value:
  "ring ring_ABC_2 = [(991333856, ''B''), (1282568964, ''A''), (2240555685, ''B''),
                      (2938563154, ''C''), (3365151463, ''C''), (3945461583, ''A'')]"
  "physical_nodes ring_ABC_2 = {''C'', ''B'', ''A''}"
  by (simp_all add: ring_ABC_2_def AddNode_def new_ring_def VnodeKey_def to_string_def
                    decimal.simps digit_char_def Hash_A Hash_B Hash_C upt_rec)

text \<open>
  The witness: on the ring of A, B, C with two virtual nodes each, the walk for the key
  \<open>"k"\<close> starts behind the last position, wraps around, and meets the owners
  B, A, B, C, C, A in the order A, B, A, B, C, C: the second A and the second B are skipped.
\<close>

theorem C9_GetNodes_distinct_length_witness:
  "(1::int) \<le> 3 \<and> ring_built ring_ABC_2 \<and> ring ring_ABC_2 \<noteq> [] \<and>
   map snd (ring ring_ABC_2) = [''B'', ''A'', ''B'', ''C'', ''C'', ''A''] \<and>
   upper_bound (Hash ''k'') (ring ring_ABC_2) = 5 \<and>
   GetNodes ring_ABC_2 ''k'' 3 = Inr [''A'', ''B'', ''C''] \<and>
   (\<exists>res. GetNodes ring_ABC_2 ''k'' 3 = Inr res \<and> distinct res \<and>
          set res \<subseteq> physical_nodes ring_ABC_2 \<and>
          int (length res) = min 3 (int (card (physical_nodes ring_ABC_2))))"
proof -
  have h1: "(1::int) \<le> 3" by simp
  have h2: "ring_built ring_ABC_2"
    unfolding ring_ABC_2_def by (intro ring_built.intros)
  have h3: "ring ring_ABC_2 \<noteq> []"
    by (simp add: ring_ABC_2_value)
  have o: "snd ` set (ring ring_ABC_2) = physical_nodes ring_ABC_2"
    by (auto simp: ring_ABC_2_value)
  have m: "map snd (ring ring_ABC_2) = [''B'', ''A'', ''B'', ''C'', ''C'', ''A'']"
    by (simp add: ring_ABC_2_value)
  have u: "upper_bound (Hash ''k'') (ring ring_ABC_2) = 5"
    by (simp add: ring_ABC_2_value Hash_k upper_bound_def)
  have g: "GetNodes ring_ABC_2 ''k'' 3 = Inr [''A'', ''B'', ''C'']"
    by (simp add: GetNodes_def u Let_def) (simp add: ring_ABC_2_value GetNodes_loop.simps)
  obtain res where "GetNodes ring_ABC_2 ''k'' 3 = Inr res" "distinct res"
    "set res \<subseteq> physical_nodes ring_ABC_2"
    "snd ` set (ring ring_ABC_2) = physical_nodes ring_ABC_2 \<longrightarrow>
       int (length res) = min 3 (int (card (physical_nodes ring_ABC_2)))"
    using C9_GetNodes_distinct_length [OF h1 h2 h3, of "''k''"] by blast
  then show ?thesis
    using h1 h2 h3 o m u g by blast
qed

text \<open>
  The claim as stated fails on a ring with one virtual node per physical node whose two
  nodes collide: \<open>"n16724#0"\<close> and \<open>"n100940#0"\<close> have the same MurmurHash3 value, so the second
  \<open>AddNode\<close> overwrites the only position of the first node, and \<open>GetNodes(key, 2)\<close> returns
  one node although there are two physical nodes.
\<close>

theorem C9_GetNodes_distinct_length_counterexample:
  "ring_built (AddNode ''n100940'' (AddNode ''n16724'' (new_ring 1))) \<and>
   ring (AddNode ''n100940'' (AddNode ''n16724'' (new_ring 1))) \<noteq> [] \<and>
   card (physical_nodes (AddNode ''n100940'' (AddNode ''n16724'' (new_ring 1)))) = 2 \<and>
   GetNodes (AddNode ''n100940'' (AddNode ''n16724'' (new_ring 1))) ''key'' 2 = Inr [''n100940''] \<and>
   int (length [''n100940''])
     \<noteq> min 2 (int (card (physical_nodes (AddNode ''n100940'' (AddNode ''n16724'' (new_ring 1))))))"
proof -
  let ?r = "AddNode ''n100940'' (AddNode ''n16724'' (new_ring 1))"
  have c: "card (physical_nodes ?r) = 2"
    by (simp add: collision_ring)
  have "GetNodes ?r ''key'' 2 = Inr [''n100940'']"
    by (rule GetNodes_single_owner) (simp_all add: collision_ring)
  moreover have "ring_built ?r"
    by (intro ring_built.intros)
  ultimately show ?thesis
    using c by (simp add: collision_ring(1))
qed

section \<open>Wire buffer: reading what was written\<close>

lemma ReadUint32_at:
  assumes d: "data buf = pre @ be32 w @ post" and p: "read_pos buf = length pre"
  shows "ReadUint32 buf = Inr (w, buf\<lparr>read_pos := length pre + 4\<rparr>)"
proof -
  define b0 :: u8 where "b0 = ucast (drop_bit 24 w AND 0xFF)"
  define b1 :: u8 where "b1 = ucast (drop_bit 16 w AND 0xFF)"
  define b2 :: u8 where "b2 = ucast (drop_bit 8 w AND 0xFF)"
  define b3 :: u8 where "b3 = ucast (w AND 0xFF)"
  have b: "be32 w = [b0, b1, b2, b3]"
    by (simp add: be32_def b0_def b1_def b2_def b3_def)
  have u: "u32_of_bytes b0 b1 b2 b3 = w"
    unfolding b0_def b1_def b2_def b3_def by (rule u32_of_bytes_be32)
  have n: "data buf ! length pre = b0" "data buf ! (length pre + 1) = b1"
          "data buf ! (length pre + 2) = b2" "data buf ! (length pre + 3) = b3"
    using nth_append_length_plus [of pre "[b0, b1, b2, b3] @ post" 0]
          nth_append_length_plus [of pre "[b0, b1, b2, b3] @ post" 1]
          nth_append_length_plus [of pre "[b0, b1, b2, b3] @ post" 2]
          nth_append_length_plus [of pre "[b0, b1, b2, b3] @ post" 3]
    by (simp_all add: d b)
  have e: "EnsureReadable 4 buf"
    by (simp add: EnsureReadable_def d p b)
  show ?thesis
    using n by (simp add: ReadUint32_def e p u)
qed

lemma ReadString_at:
  assumes d: "data buf = pre @ be32 (of_nat (length s)) @ string_bytes s @ post"
    and p: "read_pos buf = length pre" and l: "length s < 2 ^ 32"
  shows "ReadString buf = Inr (s, buf\<lparr>read_pos := length pre + 4 + length s\<rparr>)"
proof -
  let ?buf1 = "buf\<lparr>read_pos := length pre + 4\<rparr>"
  have r: "ReadUint32 buf = Inr (of_nat (length s), ?buf1)"
    using ReadUint32_at [OF d p] .
  have ul: "unat (of_nat (length s) :: u32) = length s"
    using l by (simp add: unat_of_nat)
  have "data buf = (pre @ be32 (of_nat (length s))) @ (string_bytes s @ post)"
    by (simp add: d)
  moreover have "length (pre @ be32 (of_nat (length s))) = length pre + 4"
    by simp
  ultimately have dr: "drop (length pre + 4) (data buf) = string_bytes s @ post"
    by (metis append_eq_conv_conj)
  have e: "EnsureReadable (length s) ?buf1"
    by (simp add: EnsureReadable_def d)
  show ?thesis
    by (simp add: ReadString_def r ul e dr)
qed

lemma ReadUint64_at:
  assumes d: "data buf = pre @ be64 w @ post" and p: "read_pos buf = length pre"
  shows "ReadUint64 buf = Inr (w, buf\<lparr>read_pos := length pre + 8\<rparr>)"
proof -
  have "drop (length pre) (data buf) = be64 w @ post"
    by (simp add: d)
  then have t: "take 8 (drop (length pre) (data buf)) = be64 w"
    by simp
  have e: "EnsureReadable 8 buf"
    by (simp add: EnsureReadable_def d p)
  show ?thesis
    by (simp add: ReadUint64_def e t ts_of_be64 p)
qed

lemma ReadUint8_at:
  assumes d: "data buf = pre @ b # post" and p: "read_pos buf = length pre"
  shows "ReadUint8 buf = Inr (b, buf\<lparr>read_pos := length pre + 1\<rparr>)"
  by (simp add: ReadUint8_def EnsureReadable_def d p)

lemma ReadBool_at:
  assumes d: "data buf = pre @ b # post" and p: "read_pos buf = length pre"
  shows "ReadBool buf = Inr (b \<noteq> 0, buf\<lparr>read_pos := length pre + 1\<rparr>)"
  by (simp add: ReadBool_def ReadUint8_at [OF d p])

lemma u16_of_bytes:
  "push_bit 8 (ucast (ucast (drop_bit 8 v) :: u8)) OR ucast (ucast v :: u8) = (v :: u16)"
  (is "?l = v")
proof (rule bit_eqI)
  fix n :: nat
  show "bit ?l n = bit v n"
    by (cases "n < 8") (auto simp: bit_simps dest: bit_imp_le_length)
qed

lemma ReadUint16_at:
  assumes d: "data buf = pre @ [ucast (drop_bit 8 v), ucast v] @ post"
    and p: "read_pos buf = length pre"
  shows "ReadUint16 buf = Inr (v, buf\<lparr>read_pos := length pre + 2\<rparr>)"
proof -
  have n: "data buf ! length pre = ucast (drop_bit 8 v)" "data buf ! (length pre + 1) = ucast v"
    using nth_append_length_plus [of pre "[ucast (drop_bit 8 v), ucast v] @ post" 0]
          nth_append_length_plus [of pre "[ucast (drop_bit 8 v), ucast v] @ post" 1]
    by (simp_all add: d)
  have e: "EnsureReadable 2 buf"
    by (simp add: EnsureReadable_def d p)
  show ?thesis
    using n by (simp add: ReadUint16_def e p u16_of_bytes)
qed


section \<open>Membership: merging gossip\<close>

lemma AddMember_frame:
  assumes "members mm n = Some old"
  shows "\<exists>new. members (fst (AddMember node mm)) n = Some new \<and>
               new = old\<lparr>last_heartbeat := last_heartbeat new, is_alive := is_alive new\<rparr>"
proof (cases "n = node_id node")
  case True
  with assms show ?thesis
    by (auto simp: AddMember_def Let_def)
next
  case False
  with assms show ?thesis
    by (auto simp: AddMember_def Let_def split: option.splits)
qed

lemma frame_trans:
  assumes "mid = old\<lparr>last_heartbeat := last_heartbeat mid, is_alive := is_alive mid\<rparr>"
    and "new = mid\<lparr>last_heartbeat := last_heartbeat new, is_alive := is_alive new\<rparr>"
  shows "new = (old :: NodeInfo)\<lparr>last_heartbeat := last_heartbeat new, is_alive := is_alive new\<rparr>"
proof -
  have "node_id new = node_id old" "host new = host old" "port new = port old"
    using assms by (metis NodeInfo.select_convs(1) NodeInfo.surjective NodeInfo.update_convs(4,5),
                    metis NodeInfo.select_convs(2) NodeInfo.surjective NodeInfo.update_convs(4,5),
                    metis NodeInfo.select_convs(3) NodeInfo.surjective NodeInfo.update_convs(4,5))
  then show ?thesis
    by simp
qed

lemma gossip_loop_frame:
  assumes "members mm n = Some old"
  shows "\<exists>new. members (fst (snd (gossip_loop c msg mm joined))) n = Some new \<and>
               new = old\<lparr>last_heartbeat := last_heartbeat new, is_alive := is_alive new\<rparr>"
  using assms
proof (induction c arbitrary: msg mm joined old)
  case 0
  then show ?case by simp
next
  case (Suc c)
  show ?case
  proof (cases "read_gossip_entry msg")
    case (Inl e)
    with Suc.prems show ?thesis by simp
  next
    case (Inr a)
    obtain info msg' where a: "a = (info, msg')" by (cases a)
    show ?thesis
    proof (cases "node_id info = node_id (self mm)")
      case True
      then show ?thesis
        using Suc.IH [OF Suc.prems, of msg' joined] Inr a by simp
    next
      case False
      obtain mm' is_new where am: "AddMember info mm = (mm', is_new)"
        by (cases "AddMember info mm")
      obtain mid where mid: "members mm' n = Some mid"
        "mid = old\<lparr>last_heartbeat := last_heartbeat mid, is_alive := is_alive mid\<rparr>"
        using AddMember_frame [OF Suc.prems, of info] am by auto
      obtain new where new:
        "members (fst (snd (gossip_loop c msg' mm' (if is_new then joined @ [info] else joined)))) n
           = Some new"
        "new = mid\<lparr>last_heartbeat := last_heartbeat new, is_alive := is_alive new\<rparr>"
        using Suc.IH [OF mid(1), of msg' "if is_new then joined @ [info] else joined"] by blast
      have "new = old\<lparr>last_heartbeat := last_heartbeat new, is_alive := is_alive new\<rparr>"
        by (rule frame_trans [OF mid(2) new(2)])
      then show ?thesis
        using new(1) Inr a False am by simp
    qed
  qed
qed

text \<open>
  C10. For every incoming gossip entry whose node is already known to the manager, merging it
  through \<open>AddMember\<close> or \<open>HandleGossipMessage\<close> changes at most the stored \<open>last_heartbeat\<close>
  and \<open>is_alive\<close>: the member stays in the map and its node id, host and port are the stored
  ones, whatever heartbeat and address the incoming entry carries.
\<close>

theorem C10_gossip_merge_keeps_address:
  assumes "members mm n = Some old"
  shows "(\<exists>new. members (fst (AddMember node mm)) n = Some new \<and>
                new = old\<lparr>last_heartbeat := last_heartbeat new, is_alive := is_alive new\<rparr>) \<and>
         (\<exists>new. members (fst (snd (HandleGossipMessage msg mm))) n = Some new \<and>
                new = old\<lparr>last_heartbeat := last_heartbeat new, is_alive := is_alive new\<rparr>)"
proof
  show "\<exists>new. members (fst (AddMember node mm)) n = Some new \<and>
                new = old\<lparr>last_heartbeat := last_heartbeat new, is_alive := is_alive new\<rparr>"
    by (rule AddMember_frame [OF assms])
  show "\<exists>new. members (fst (snd (HandleGossipMessage msg mm))) n = Some new \<and>
                new = old\<lparr>last_heartbeat := last_heartbeat new, is_alive := is_alive new\<rparr>"
  proof (cases "ReadUint32 msg")
    case (Inl e)
    with assms show ?thesis by (simp add: HandleGossipMessage_def)
  next
    case (Inr a)
    obtain cnt msg1 where "a = (cnt, msg1)" by (cases a)
    with Inr show ?thesis
      using gossip_loop_frame [OF assms, of "unat cnt" msg1 "[]"]
      by (simp add: HandleGossipMessage_def)
  qed
qed

text \<open>
  The witness: node n1 knows n2 at 10.0.0.2:7001 with heartbeat 50; an entry for n2 with
  heartbeat 60 and the address 10.9.9.9:9999 arrives, through \<open>AddMember\<close> and in a gossip
  message whose opcode byte the dispatcher has read. The heartbeat becomes 60 and the
  address stays.
\<close>

theorem C10_gossip_merge_keeps_address_witness:
  "members (fst (AddMember ((node_info ''n2'' ''10.0.0.2'' 7001)\<lparr>last_heartbeat := 50\<rparr>)
                  (new_MembershipManager (node_info ''n1'' ''10.0.0.1'' 7000) 50))) ''n2''
     = Some ((node_info ''n2'' ''10.0.0.2'' 7001)\<lparr>last_heartbeat := 50\<rparr>) \<and>
   members (fst (AddMember ((node_info ''n2'' ''10.9.9.9'' 9999)\<lparr>last_heartbeat := 60\<rparr>)
     (fst (AddMember ((node_info ''n2'' ''10.0.0.2'' 7001)\<lparr>last_heartbeat := 50\<rparr>)
            (new_MembershipManager (node_info ''n1'' ''10.0.0.1'' 7000) 50))))) ''n2''
     = Some \<lparr>node_id = ''n2'', host = ''10.0.0.2'', port = 7001, is_alive = True,
             last_heartbeat = 60\<rparr> \<and>
   ReadUint8 (CreateGossipMessage [(node_info ''n2'' ''10.9.9.9'' 9999)\<lparr>last_heartbeat := 60\<rparr>])
     = Inr (GOSSIP,
            (CreateGossipMessage [(node_info ''n2'' ''10.9.9.9'' 9999)\<lparr>last_heartbeat := 60\<rparr>])
              \<lparr>read_pos := 1\<rparr>) \<and>
   members (fst (snd (HandleGossipMessage
       ((CreateGossipMessage [(node_info ''n2'' ''10.9.9.9'' 9999)\<lparr>last_heartbeat := 60\<rparr>])
          \<lparr>read_pos := 1\<rparr>)
       (fst (AddMember ((node_info ''n2'' ''10.0.0.2'' 7001)\<lparr>last_heartbeat := 50\<rparr>)
              (new_MembershipManager (node_info ''n1'' ''10.0.0.1'' 7000) 50)))))) ''n2''
     = Some \<lparr>node_id = ''n2'', host = ''10.0.0.2'', port = 7001, is_alive = True,
             last_heartbeat = 60\<rparr>"
proof -
  let ?old = "(node_info ''n2'' ''10.0.0.2'' 7001)\<lparr>last_heartbeat := 50\<rparr>"
  let ?mm = "fst (AddMember ?old (new_MembershipManager (node_info ''n1'' ''10.0.0.1'' 7000) 50))"
  let ?node = "(node_info ''n2'' ''10.9.9.9'' 9999)\<lparr>last_heartbeat := 60\<rparr>"
  let ?msg = "CreateGossipMessage [?node]"
  let ?new = "\<lparr>node_id = ''n2'', host = ''10.0.0.2'', port = 7001, is_alive = True,
               last_heartbeat = 60\<rparr>"
  let ?post5 = "[ucast (drop_bit 8 (9999 :: u16)), ucast (9999 :: u16)] @ be64 60 @ [1 :: u8]"
  let ?host = "be32 (of_nat (length ''10.9.9.9'')) @ string_bytes ''10.9.9.9''"
  let ?nid = "be32 (of_nat (length ''n2'')) @ string_bytes ''n2''"
  have h: "members ?mm ''n2'' = Some ?old"
    by (simp add: AddMember_def new_MembershipManager_def node_info_def Let_def)
  have sf: "node_id (self ?mm) = ''n1''"
    by (simp add: AddMember_def new_MembershipManager_def node_info_def Let_def)
  have a: "members (fst (AddMember ?node ?mm)) ''n2'' = Some ?new"
    by (simp add: AddMember_def new_MembershipManager_def node_info_def Let_def)
  have d: "data ?msg = [GOSSIP] @ be32 1 @ ?nid @ ?host @ ?post5"
    and p0: "read_pos ?msg = 0"
    by (simp_all add: CreateGossipMessage_def write_gossip_entry_def WriteBool_def
          WriteUint64_def WriteUint16_def WriteString_def WriteUint32_def WriteUint8_def
          empty_buffer_def node_info_def Let_def)
  have r8: "ReadUint8 ?msg = Inr (GOSSIP, ?msg\<lparr>read_pos := 1\<rparr>)"
    using ReadUint8_at [of ?msg "[]" GOSSIP "be32 1 @ ?nid @ ?host @ ?post5"]
    by (simp add: d p0)
  have r32: "ReadUint32 (?msg\<lparr>read_pos := 1\<rparr>) = Inr (1, ?msg\<lparr>read_pos := 5\<rparr>)"
    using ReadUint32_at [of "?msg\<lparr>read_pos := 1\<rparr>" "[GOSSIP]" 1 "?nid @ ?host @ ?post5"]
    by (simp add: d)
  have e1: "ReadString (?msg\<lparr>read_pos := 5\<rparr>) = Inr (''n2'', ?msg\<lparr>read_pos := 11\<rparr>)"
    using ReadString_at [of "?msg\<lparr>read_pos := 5\<rparr>" "[GOSSIP] @ be32 1" "''n2''" "?host @ ?post5"]
    by (simp add: d)
  have e2: "ReadString (?msg\<lparr>read_pos := 11\<rparr>) = Inr (''10.9.9.9'', ?msg\<lparr>read_pos := 23\<rparr>)"
    using ReadString_at [of "?msg\<lparr>read_pos := 11\<rparr>" "[GOSSIP] @ be32 1 @ ?nid" "''10.9.9.9''" ?post5]
    by (simp add: d)
  have e3: "ReadUint16 (?msg\<lparr>read_pos := 23\<rparr>) = Inr (9999, ?msg\<lparr>read_pos := 25\<rparr>)"
    using ReadUint16_at [of "?msg\<lparr>read_pos := 23\<rparr>" "[GOSSIP] @ be32 1 @ ?nid @ ?host" 9999
                            "be64 60 @ [1 :: u8]"]
    by (simp add: d)
  have e4: "ReadUint64 (?msg\<lparr>read_pos := 25\<rparr>) = Inr (60, ?msg\<lparr>read_pos := 33\<rparr>)"
    using ReadUint64_at [of "?msg\<lparr>read_pos := 25\<rparr>"
             "[GOSSIP] @ be32 1 @ ?nid @ ?host @ [ucast (drop_bit 8 (9999 :: u16)), ucast (9999 :: u16)]"
             60 "[1 :: u8]"]
    by (simp add: d)
  have e5: "ReadBool (?msg\<lparr>read_pos := 33\<rparr>) = Inr (True, ?msg\<lparr>read_pos := 34\<rparr>)"
    using ReadBool_at [of "?msg\<lparr>read_pos := 33\<rparr>"
             "[GOSSIP] @ be32 1 @ ?nid @ ?host @ [ucast (drop_bit 8 (9999 :: u16)), ucast (9999 :: u16)] @ be64 60"
             1 "[]"]
    by (simp add: d)
  have nd: "\<lparr>node_id = ''n2'', host = ''10.9.9.9'', port = 9999, is_alive = True,
              last_heartbeat = 60\<rparr> = ?node"
    and nid: "node_id ?node = ''n2''"
    by (simp_all add: node_info_def)
  have entry: "read_gossip_entry (?msg\<lparr>read_pos := 5\<rparr>) = Inr (?node, ?msg\<lparr>read_pos := 34\<rparr>)"
    by (simp add: read_gossip_entry_def e1 e2 e3 e4 e5 nd)
  obtain mm' is_new where am: "AddMember ?node ?mm = (mm', is_new)"
    by (cases "AddMember ?node ?mm")
  have m: "members mm' ''n2'' = Some ?new"
    using a by (simp add: am)
  have gl: "gossip_loop (Suc 0) (?msg\<lparr>read_pos := 5\<rparr>) ?mm []
            = (None, mm', if is_new then [?node] else [])"
    using sf by (simp add: entry am nid)
  have hg: "HandleGossipMessage (?msg\<lparr>read_pos := 1\<rparr>) ?mm
            = gossip_loop (Suc 0) (?msg\<lparr>read_pos := 5\<rparr>) ?mm []"
    unfolding HandleGossipMessage_def r32 by simp
  have g: "members (fst (snd (HandleGossipMessage (?msg\<lparr>read_pos := 1\<rparr>) ?mm))) ''n2''
           = Some ?new"
    unfolding hg gl using m by simp
  obtain new where "members (fst (snd (HandleGossipMessage (?msg\<lparr>read_pos := 1\<rparr>) ?mm))) ''n2''
      = Some new" "new = ?old\<lparr>last_heartbeat := last_heartbeat new, is_alive := is_alive new\<rparr>"
    using C10_gossip_merge_keeps_address [OF h, of ?node "?msg\<lparr>read_pos := 1\<rparr>"] by blast
  then show ?thesis
    using h a r8 g by blast
qed

section \<open>Replication and coordinator\<close>

lemma foldl_count_acks:
  "foldl (\<lambda>a b. if b then a + 1 else a) (a0 :: int) fs = a0 + int (length (filter (\<lambda>b. b) fs))"
  by (induction fs arbitrary: a0) simp_all

lemma count_acks_filter: "count_acks fs = int (length (filter (\<lambda>b. b) fs))"
  by (simp add: count_acks_def foldl_count_acks)

lemma to_string_digit: "0 \<le> i \<Longrightarrow> i < 10 \<Longrightarrow> to_string i = [digit_char (nat i)]"
  by (simp add: to_string_def decimal.simps)

lemma ring_ABC_value:
  "ring ring_ABC = [(991333856, ''B''), (2938563154, ''C''), (3945461583, ''A'')]"
  "physical_nodes ring_ABC = {''C'', ''B'', ''A''}"
  by (simp_all add: ring_ABC_def AddNode_def new_ring_def VnodeKey_def to_string_def
                    decimal.simps digit_char_def Hash_A Hash_B Hash_C)

lemma GetNodes_ring_ABC: "GetNodes ring_ABC ''k'' 3 = Inr [''A'', ''B'', ''C'']"
  by (simp add: GetNodes_def ring_ABC_value Hash_k upper_bound_def GetNodes_loop.simps Let_def)

lemma put_payload_data:
  "data (put_payload k v)
     = be32 (of_nat (length k)) @ string_bytes k @ be32 (of_nat (length v)) @ string_bytes v"
  "read_pos (put_payload k v) = 0"
  by (simp_all add: put_payload_def WriteString_def WriteUint32_def empty_buffer_def Let_def)

lemma internal_put_payload_data:
  "data (internal_put_payload k v ts origin)
     = be32 (of_nat (length k)) @ string_bytes k @ be32 (of_nat (length v)) @ string_bytes v
       @ be64 ts @ be32 (of_nat (length origin)) @ string_bytes origin"
  "read_pos (internal_put_payload k v ts origin) = 0"
  by (simp_all add: internal_put_payload_def WriteString_def WriteUint32_def WriteUint64_def
                    empty_buffer_def Let_def)

text \<open>Reading back the key and the value of a client PUT payload.\<close>

lemma read_put_payload:
  assumes "length k < 2 ^ 32" "length v < 2 ^ 32"
  shows "\<exists>b1 b2. ReadString (put_payload k v) = Inr (k, b1) \<and> ReadString b1 = Inr (v, b2)"
proof -
  let ?b = "put_payload k v"
  let ?b1 = "?b\<lparr>read_pos := 4 + length k\<rparr>"
  have r1: "ReadString ?b = Inr (k, ?b1)"
    using ReadString_at [of ?b "[]" k "be32 (of_nat (length v)) @ string_bytes v"] assms(1)
    by (simp add: put_payload_data)
  have r2: "ReadString ?b1 = Inr (v, ?b1\<lparr>read_pos := 4 + length k + 4 + length v\<rparr>)"
    using ReadString_at [of ?b1 "be32 (of_nat (length k)) @ string_bytes k" v "[]"] assms(2)
    by (simp add: put_payload_data)
  show ?thesis
    using r1 r2 by blast
qed

lemma read_internal_put_payload:
  assumes "length k < 2 ^ 32" "length v < 2 ^ 32" "length origin < 2 ^ 32"
  shows "\<exists>b1 b2 b3 b4. ReadString (internal_put_payload k v ts origin) = Inr (k, b1) \<and>
           ReadString b1 = Inr (v, b2) \<and> ReadUint64 b2 = Inr (ts, b3) \<and>
           ReadString b3 = Inr (origin, b4)"
proof -
  let ?b = "internal_put_payload k v ts origin"
  let ?K = "be32 (of_nat (length k)) @ string_bytes k"
  let ?V = "be32 (of_nat (length v)) @ string_bytes v"
  let ?O = "be32 (of_nat (length origin)) @ string_bytes origin"
  let ?b1 = "?b\<lparr>read_pos := 4 + length k\<rparr>"
  let ?b2 = "?b1\<lparr>read_pos := 4 + length k + 4 + length v\<rparr>"
  let ?b3 = "?b2\<lparr>read_pos := 4 + length k + 4 + length v + 8\<rparr>"
  have r1: "ReadString ?b = Inr (k, ?b1)"
    using ReadString_at [of ?b "[]" k "?V @ be64 ts @ ?O"] assms(1)
    by (simp add: internal_put_payload_data)
  have r2: "ReadString ?b1 = Inr (v, ?b2)"
    using ReadString_at [of ?b1 ?K v "be64 ts @ ?O"] assms(2)
    by (simp add: internal_put_payload_data)
  have r3: "ReadUint64 ?b2 = Inr (ts, ?b3)"
    using ReadUint64_at [of ?b2 "?K @ ?V" ts ?O]
    by (simp add: internal_put_payload_data)
  have r4: "ReadString ?b3 = Inr (origin, ?b3\<lparr>read_pos := 4 + length k + 4 + length v + 8 + 4 + length origin\<rparr>)"
    using ReadString_at [of ?b3 "?K @ ?V @ be64 ts" origin "[]"] assms(3)
    by (simp add: internal_put_payload_data)
  show ?thesis
    using r1 r2 r3 r4 by blast
qed

text \<open>
  C4. \<open>ReplicatedPut\<close> reports success if and only if the number of acknowledged replica
  writes is at least \<open>W\<close>, and when fewer than \<open>W\<close> acks arrive it fails with an error message
  that states the counts, \<open>"Quorum not reached: <acks>/<W> acks"\<close>. The acks are those of
  the writes issued to the replicas that \<open>GetNodes\<close> has returned, a list that is not empty
  when the writes are issued.
\<close>

theorem C4_ReplicatedPut_quorum:
  assumes "GetNodes r k (cfg_N rm) = Inr nodes" and "nodes \<noteq> []"
  shows "\<exists>res st'. ReplicatedPut net rm r mm ts k v st = Inr (res, st') \<and>
           acks res = int (length (filter (\<lambda>b. b)
                            (fst (launch_puts net (self_id rm) mm k v ts nodes st)))) \<and>
           (success res \<longleftrightarrow> acks res \<ge> cfg_W rm) \<and>
           (acks res < cfg_W rm \<longrightarrow>
              error res = ''Quorum not reached: '' @ to_string (acks res) @ ''/''
                          @ to_string (cfg_W rm) @ '' acks'')"
proof -
  obtain futures st' where l: "launch_puts net (self_id rm) mm k v ts nodes st = (futures, st')"
    by (cases "launch_puts net (self_id rm) mm k v ts nodes st")
  show ?thesis
    using assms l by (simp add: ReplicatedPut_def Let_def count_acks_filter)
qed

theorem C4_ReplicatedPut_quorum_witness:
  "GetNodes ring_ABC ''k'' (cfg_N \<lparr>self_id = ''A'', cfg_N = 3, cfg_R = 2, cfg_W = 2\<rparr>)
     = Inr [''A'', ''B'', ''C''] \<and> [''A'', ''B'', ''C''] \<noteq> [] \<and>
   (\<exists>res st'. ReplicatedPut no_peers \<lparr>self_id = ''A'', cfg_N = 3, cfg_R = 2, cfg_W = 2\<rparr>
                 ring_ABC members_A_alone 1000 ''k'' ''v'' (new_engine []) = Inr (res, st') \<and>
              \<not> success res \<and> acks res = 1 \<and> error res = ''Quorum not reached: 1/2 acks'')"
proof -
  let ?rm = "\<lparr>self_id = ''A'', cfg_N = 3, cfg_R = 2, cfg_W = 2\<rparr>"
  have h1: "GetNodes ring_ABC ''k'' (cfg_N ?rm) = Inr [''A'', ''B'', ''C'']"
    by (simp add: GetNodes_ring_ABC)
  have h2: "[''A'', ''B'', ''C''] \<noteq> ([] :: string list)"
    by simp
  have f: "fst (launch_puts no_peers (self_id ?rm) members_A_alone ''k'' ''v'' 1000
                   [''A'', ''B'', ''C''] (new_engine [])) = [True, False, False]"
    by (simp add: members_A_alone_def RemoveMember_def AddMember_def new_MembershipManager_def
                  node_info_def GetMember_def Put_def wal_Append_def new_engine_def Let_def
                  no_peers_def)
  obtain res st' where res:
    "ReplicatedPut no_peers ?rm ring_ABC members_A_alone 1000 ''k'' ''v'' (new_engine []) = Inr (res, st')"
    "acks res = int (length (filter (\<lambda>b. b)
        (fst (launch_puts no_peers (self_id ?rm) members_A_alone ''k'' ''v'' 1000
                [''A'', ''B'', ''C''] (new_engine [])))))"
    "success res \<longleftrightarrow> acks res \<ge> cfg_W ?rm"
    "acks res < cfg_W ?rm \<longrightarrow>
       error res = ''Quorum not reached: '' @ to_string (acks res) @ ''/''
                   @ to_string (cfg_W ?rm) @ '' acks''"
    using C4_ReplicatedPut_quorum [OF h1 h2, of no_peers members_A_alone 1000 "''v''" "new_engine []"]
    by blast
  have a: "acks res = 1"
    using res(2) by (simp only: f) simp
  have "\<not> success res"
    using res(3) a by simp
  moreover have "error res = ''Quorum not reached: 1/2 acks''"
    using res(4) a by (simp add: to_string_digit digit_char_def)
  ultimately show ?thesis
    using h1 res(1) a by blast
qed

text \<open>
  Before any write is issued, an empty replica list ends \<open>ReplicatedPut\<close> with the error of
  its second step.
\<close>

lemma ReplicatedPut_no_nodes:
  "GetNodes r k (cfg_N rm) = Inr [] \<Longrightarrow>
   ReplicatedPut net rm r mm ts k v st
     = Inr (\<lparr>success = False, acks = 0, error = ''No nodes available''\<rparr>, st)"
  by (simp add: ReplicatedPut_def)

text \<open>
  C5. Given at least \<open>R\<close> ok responses, \<open>ReplicatedGet\<close> should return success without a value
  only if no ok responder held a value. The search for the latest version starts from
  timestamp 0 and compares with \<open>>\<close>, so a value whose timestamp is 0 is never found: on a
  single node whose engine holds such a value for the key, the read succeeds without a
  value.
\<close>

theorem C5_ReplicatedGet_timestamp_zero:
  "fst (Put ''k'' ''v'' 0 ''n1'' (new_engine [])) \<and>
   Get ''k'' (snd (Put ''k'' ''v'' 0 ''n1'' (new_engine [])))
     = Some \<lparr>value = ''v'', timestamp = 0, origin_node = ''n1''\<rparr> \<and>
   ReplicatedGet no_peers \<lparr>self_id = ''n1'', cfg_N = 1, cfg_R = 1, cfg_W = 1\<rparr>
       (AddNode ''n1'' (new_ring 150))
       (new_MembershipManager (node_info ''n1'' ''0.0.0.0'' 7000) 1000) ''k''
       (snd (Put ''k'' ''v'' 0 ''n1'' (new_engine [])))
     = Inr (\<lparr>read_success = True, read_value = None, responses = 1, read_error = []\<rparr>,
            snd (Put ''k'' ''v'' 0 ''n1'' (new_engine [])))"
proof -
  have g: "GetNodes (AddNode ''n1'' (new_ring 150)) ''k'' 1 = Inr [''n1'']"
    by (rule GetNodes_single_node) simp_all
  have p: "fst (Put ''k'' ''v'' 0 ''n1'' (new_engine []))"
    "Get ''k'' (snd (Put ''k'' ''v'' 0 ''n1'' (new_engine [])))
       = Some \<lparr>value = ''v'', timestamp = 0, origin_node = ''n1''\<rparr>"
    by (simp_all add: Put_def Get_def new_engine_def Let_def wal_Append_def)
  have "ReplicatedGet no_peers \<lparr>self_id = ''n1'', cfg_N = 1, cfg_R = 1, cfg_W = 1\<rparr>
       (AddNode ''n1'' (new_ring 150))
       (new_MembershipManager (node_info ''n1'' ''0.0.0.0'' 7000) 1000) ''k''
       (snd (Put ''k'' ''v'' 0 ''n1'' (new_engine [])))
     = Inr (\<lparr>read_success = True, read_value = None, responses = 1, read_error = []\<rparr>,
            snd (Put ''k'' ''v'' 0 ''n1'' (new_engine [])))"
    by (simp add: ReplicatedGet_def g launch_get_def p(2) Let_def)
  then show ?thesis
    using p by simp
qed

text \<open>
  C8. A client PUT that is stale at the storage engine should be a silent no-op there and
  still be answered OK. On a single node with \<open>N = R = W = 1\<close> whose engine holds the key
  with timestamp 200, a client PUT coordinated at time 100 is rejected by \<open>Put\<close>, the local
  write is not counted as an ack, and \<open>HandlePut\<close> replies with the error
  \<open>"Quorum not reached: 0/1 acks"\<close>; the peer path \<open>HandleInternalPut\<close> replies OK to the same
  stale write.
\<close>

theorem C8_stale_client_put_error:
  "\<not> fst (Put ''k'' ''old'' 100 ''n1'' (snd (Put ''k'' ''new'' 200 ''n1'' (new_engine [])))) \<and>
   (\<exists>st'. HandlePut no_peers \<lparr>self_id = ''n1'', cfg_N = 1, cfg_R = 1, cfg_W = 1\<rparr>
             (AddNode ''n1'' (new_ring 150))
             (new_MembershipManager (node_info ''n1'' ''0.0.0.0'' 7000) 1000) 100
             (put_payload ''k'' ''old'') (snd (Put ''k'' ''new'' 200 ''n1'' (new_engine [])))
           = Inr (MakeErrorResponse ''Quorum not reached: 0/1 acks'', st') \<and>
          store st' = store (snd (Put ''k'' ''new'' 200 ''n1'' (new_engine [])))) \<and>
   MakeErrorResponse ''Quorum not reached: 0/1 acks'' \<noteq> MakeOkResponse \<and>
   (\<exists>st'. HandleInternalPut (internal_put_payload ''k'' ''old'' 100 ''n1'')
             (snd (Put ''k'' ''new'' 200 ''n1'' (new_engine [])))
           = Inr (MakeOkResponse, st') \<and>
          store st' = store (snd (Put ''k'' ''new'' 200 ''n1'' (new_engine []))))"
proof -
  let ?st = "snd (Put ''k'' ''new'' 200 ''n1'' (new_engine []))"
  have g: "GetNodes (AddNode ''n1'' (new_ring 150)) ''k'' 1 = Inr [''n1'']"
    by (rule GetNodes_single_node) simp_all
  have s: "store ?st ''k'' = Some \<lparr>value = ''new'', timestamp = 200, origin_node = ''n1''\<rparr>"
    by (simp add: Put_store new_engine_def)
  have stale: "\<not> fst (Put ''k'' ''old'' 100 ''n1'' ?st)"
    using s by (simp add: Put_def Let_def wal_Append_def)
  have same: "store (snd (Put ''k'' ''old'' 100 ''n1'' ?st)) = store ?st"
    using s by (simp add: Put_store)
  obtain st2 where P: "Put ''k'' ''old'' 100 ''n1'' ?st = (False, st2)"
    using stale by (cases "Put ''k'' ''old'' 100 ''n1'' ?st") auto
  have same2: "store st2 = store ?st"
    using same by (simp add: P)
  obtain b1 b2 where rd: "ReadString (put_payload ''k'' ''old'') = Inr (''k'', b1)"
    "ReadString b1 = Inr (''old'', b2)"
    using read_put_payload [of "''k''" "''old''"] by auto
  have rp: "ReplicatedPut no_peers \<lparr>self_id = ''n1'', cfg_N = 1, cfg_R = 1, cfg_W = 1\<rparr>
              (AddNode ''n1'' (new_ring 150))
              (new_MembershipManager (node_info ''n1'' ''0.0.0.0'' 7000) 1000) 100 ''k'' ''old'' ?st
            = Inr (\<lparr>success = False, acks = 0, error = ''Quorum not reached: 0/1 acks''\<rparr>, st2)"
    by (simp add: ReplicatedPut_def g P count_acks_def to_string_digit digit_char_def)
  have hp: "HandlePut no_peers \<lparr>self_id = ''n1'', cfg_N = 1, cfg_R = 1, cfg_W = 1\<rparr>
             (AddNode ''n1'' (new_ring 150))
             (new_MembershipManager (node_info ''n1'' ''0.0.0.0'' 7000) 1000) 100
             (put_payload ''k'' ''old'') ?st
           = Inr (MakeErrorResponse ''Quorum not reached: 0/1 acks'', st2)"
    by (simp add: HandlePut_def rd rp)
  have ne: "MakeErrorResponse ''Quorum not reached: 0/1 acks'' \<noteq> MakeOkResponse"
    by (simp add: MakeErrorResponse_def MakeOkResponse_def WriteString_def WriteUint32_def
                  WriteUint8_def empty_buffer_def Let_def StatusCode_OK_def StatusCode_ERROR_def)
  obtain c1 c2 c3 c4 where ri:
    "ReadString (internal_put_payload ''k'' ''old'' 100 ''n1'') = Inr (''k'', c1)"
    "ReadString c1 = Inr (''old'', c2)" "ReadUint64 c2 = Inr (100, c3)"
    "ReadString c3 = Inr (''n1'', c4)"
    using read_internal_put_payload [of "''k''" "''old''" "''n1''" 100] by auto
  let ?vv = "\<lparr>value = ''old'', timestamp = 100, origin_node = ''n1''\<rparr>"
  have hi: "HandleInternalPut (internal_put_payload ''k'' ''old'' 100 ''n1'') ?st
            = Inr (MakeOkResponse, snd (ConditionalPut ''k'' ?vv ?st))"
    by (simp add: HandleInternalPut_def ri)
  have same_i: "store (snd (ConditionalPut ''k'' ?vv ?st)) = store ?st"
    using s by (simp add: ConditionalPut_def Let_def wal_Append_def)
  show ?thesis
    using stale hp same2 ne hi same_i by blast
qed

end
